theory Spec2Isabelle
  imports Main "HOL-Library.Sublist"
begin

section \<open>Text and the string operations of the host language\<close>

text \<open>
  The program is \<^verbatim>\<open>app.py\<close>: an OCR pipeline for one kind of fiscal document
  (NFS-e). A text is a Python \<^verbatim>\<open>str\<close>, a sequence of code points. It is
  modelled as a \<^typ>\<open>string\<close>, one \<^typ>\<open>char\<close> per code point, which
  covers the code points below 256; every character written in the rule tables of the
  program lies in that range. The accented letters of the tables are named below by
  their code points.
\<close>

definition cp :: "char \<Rightarrow> nat" where
  "cp c = of_char c"

definition C_cedilla :: char where "C_cedilla = CHR 0xC7"
definition A_tilde :: char where "A_tilde = CHR 0xC3"
definition O_circ :: char where "O_circ = CHR 0xD4"
definition O_tilde :: char where "O_tilde = CHR 0xD5"
definition a_tilde :: char where "a_tilde = CHR 0xE3"
definition c_cedilla :: char where "c_cedilla = CHR 0xE7"
definition o_acute :: char where "o_acute = CHR 0xF3"
definition u_acute :: char where "u_acute = CHR 0xFA"

lemmas letter_defs =
  C_cedilla_def A_tilde_def O_circ_def O_tilde_def a_tilde_def c_cedilla_def
  o_acute_def u_acute_def

text \<open>\<^verbatim>\<open>sub in s\<close>: the substring test.\<close>

primrec str_contains :: "string \<Rightarrow> string \<Rightarrow> bool" where
  "str_contains sub [] = (sub = [])"
| "str_contains sub (c # cs) = (prefix sub (c # cs) \<or> str_contains sub cs)"

text \<open>
  \<^verbatim>\<open>s.replace(old, new)\<close> for a non-empty \<^verbatim>\<open>old\<close>: the occurrences
  are found from left to right and do not overlap. With an empty \<^verbatim>\<open>old\<close>
  Python puts \<^verbatim>\<open>new\<close> before every character and at the end.
\<close>

fun replace_scan :: "string \<Rightarrow> string \<Rightarrow> string \<Rightarrow> string" where
  "replace_scan old new [] = []"
| "replace_scan old new (c # cs) =
     (if prefix old (c # cs) then new @ replace_scan old new (drop (length old - 1) cs)
      else c # replace_scan old new cs)"

definition str_replace :: "string \<Rightarrow> string \<Rightarrow> string \<Rightarrow> string" where
  "str_replace s old new =
     (if old = [] then new @ concat (map (\<lambda>c. c # new) s) else replace_scan old new s)"

text \<open>
  \<^verbatim>\<open>s.split(sep)\<close>: the segments between the occurrences of the separator,
  found from left to right. Python raises \<^verbatim>\<open>ValueError\<close> on an empty separator.
  The second argument of \<open>split_scan\<close> is the segment read so far, reversed.
\<close>

datatype error = Error string

fun split_scan :: "string \<Rightarrow> string \<Rightarrow> string \<Rightarrow> string list" where
  "split_scan sep cur [] = [rev cur]"
| "split_scan sep cur (c # cs) =
     (if prefix sep (c # cs) then rev cur # split_scan sep [] (drop (length sep - 1) cs)
      else split_scan sep (c # cur) cs)"

definition str_split :: "string \<Rightarrow> string \<Rightarrow> error + string list" where
  "str_split s sep =
     (if sep = [] then Inl (Error ''empty separator'') else Inr (split_scan sep [] s))"

text \<open>\<^verbatim>\<open>sep.join(xs)\<close>.\<close>

fun str_join :: "string \<Rightarrow> string list \<Rightarrow> string" where
  "str_join sep [] = []"
| "str_join sep [x] = x"
| "str_join sep (x # y # ys) = x @ sep @ str_join sep (y # ys)"

section \<open>The merge of the two recognition passes\<close>

text \<open>
  Line 157 of \<^verbatim>\<open>processar_nfse\<close>:
  \<^verbatim>\<open>texto = texto.replace('R$', texto_numerico.split('R$')[-1])\<close>.
  The list returned by \<^verbatim>\<open>split\<close> is never empty, so the index \<^verbatim>\<open>[-1]\<close>
  is its last element.
\<close>

definition merge_ocr :: "string \<Rightarrow> string \<Rightarrow> error + string" where
  "merge_ocr texto texto_numerico =
     (case str_split texto_numerico ''R$'' of
        Inl e \<Rightarrow> Inl e
      | Inr segs \<Rightarrow> Inr (str_replace texto ''R$'' (last segs)))"

section \<open>Regular expressions of the host library\<close>

text \<open>
  The program calls \<^verbatim>\<open>re.sub\<close> and \<^verbatim>\<open>re.search\<close>. Its patterns are
  sequences of single-character classes, each with a greedy repetition, and capturing
  groups that are neither nested nor repeated. That fragment is modelled by a
  backtracking matcher: a repetition first takes as many characters as it can and gives
  them back one at a time while the rest of the pattern fails.

  The character classes on the code points below 256: \<^verbatim>\<open>\d\<close> is the ten ASCII
  digits, \<^verbatim>\<open>\s\<close> is the twelve white-space code points, \<^verbatim>\<open>.\<close> is any
  character but the line feed. Under \<^verbatim>\<open>re.IGNORECASE\<close> a literal and a range
  are compared after lower-casing both sides.
\<close>

datatype atom = Lit char | Rng char char | Digit | Space

datatype cls = One atom | Dot | Set "atom list"

datatype item = Rep cls nat "nat option" | Open nat | Close nat

definition unicode_tolower :: "nat \<Rightarrow> nat" where
  "unicode_tolower n =
     (if (65 \<le> n \<and> n \<le> 90) \<or> (192 \<le> n \<and> n \<le> 222 \<and> n \<noteq> 215) then n + 32 else n)"

definition is_decimal :: "nat \<Rightarrow> bool" where
  "is_decimal n = (48 \<le> n \<and> n \<le> 57)"

definition is_space :: "nat \<Rightarrow> bool" where
  "is_space n = ((9 \<le> n \<and> n \<le> 13) \<or> (28 \<le> n \<and> n \<le> 32) \<or> n = 133 \<or> n = 160)"

fun atom_ok :: "bool \<Rightarrow> atom \<Rightarrow> char \<Rightarrow> bool" where
  "atom_ok ic (Lit x) c =
     (if ic then unicode_tolower (cp c) = unicode_tolower (cp x) else c = x)"
| "atom_ok ic (Rng lo hi) c =
     (if ic then unicode_tolower (cp c) \<in> unicode_tolower ` {cp lo..cp hi}
      else cp lo \<le> cp c \<and> cp c \<le> cp hi)"
| "atom_ok ic Digit c = is_decimal (cp c)"
| "atom_ok ic Space c = is_space (cp c)"

fun cls_ok :: "bool \<Rightarrow> cls \<Rightarrow> char \<Rightarrow> bool" where
  "cls_ok ic (One a) c = atom_ok ic a c"
| "cls_ok ic Dot c = (c \<noteq> CHR 0x0A)"
| "cls_ok ic (Set as) c = list_ex (\<lambda>a. atom_ok ic a c) as"

text \<open>
  \<open>Rep c lo hi\<close> is the class \<open>c\<close> repeated at least \<open>lo\<close> and at most
  \<open>hi\<close> times (\<open>None\<close>: no upper bound). \<open>run_length\<close> is the greedy first
  try; \<open>try_down f lo d\<close> tries the counts \<open>lo + d\<close>, ..., \<open>lo\<close> in that order.
\<close>

definition run_length :: "bool \<Rightarrow> cls \<Rightarrow> nat option \<Rightarrow> string \<Rightarrow> nat" where
  "run_length ic c hi s =
     (let n = length (takeWhile (cls_ok ic c) s)
      in case hi of None \<Rightarrow> n | Some h \<Rightarrow> min h n)"

primrec try_down :: "(nat \<Rightarrow> 'a option) \<Rightarrow> nat \<Rightarrow> nat \<Rightarrow> 'a option" where
  "try_down f lo 0 = f lo"
| "try_down f lo (Suc d) =
     (case f (lo + Suc d) of Some r \<Rightarrow> Some r | None \<Rightarrow> try_down f lo d)"

type_synonym spans = "nat \<rightharpoonup> nat \<times> nat"

text \<open>
  \<open>re_match ic p adv s pos st caps\<close> matches the pattern \<open>p\<close> at the head of
  \<open>s\<close>, where \<open>pos\<close> characters of the match have been read already, \<open>st\<close>
  holds the start of each open group and \<open>caps\<close> the span of each closed group. It
  returns the length of the match and the spans. The flag \<open>adv\<close> refuses the empty
  match, as the library does right after an empty match at the same place.
\<close>

primrec re_match ::
  "bool \<Rightarrow> item list \<Rightarrow> bool \<Rightarrow> string \<Rightarrow> nat \<Rightarrow> (nat \<Rightarrow> nat) \<Rightarrow> spans \<Rightarrow> (nat \<times> spans) option"
where
  "re_match ic [] = (\<lambda>adv s pos st caps. if adv \<and> pos = 0 then None else Some (pos, caps))"
| "re_match ic (x # r) = (\<lambda>adv s pos st caps.
     case x of
       Open k \<Rightarrow> re_match ic r adv s pos (st(k := pos)) caps
     | Close k \<Rightarrow> re_match ic r adv s pos st (caps(k \<mapsto> (st k, pos)))
     | Rep c lo hi \<Rightarrow>
         (let n = run_length ic c hi s
          in if n < lo then None
             else try_down (\<lambda>k. re_match ic r adv (drop k s) (pos + k) st caps) lo (n - lo)))"

text \<open>
  \<^verbatim>\<open>re.search\<close>: the match at the leftmost place that has one. The result is the
  start of the match, its length and the group spans (relative to the start).
\<close>

fun re_search :: "bool \<Rightarrow> item list \<Rightarrow> bool \<Rightarrow> string \<Rightarrow> (nat \<times> nat \<times> spans) option" where
  "re_search ic p adv s =
     (case re_match ic p adv s 0 (\<lambda>k. 0) Map.empty of
        Some (e, caps) \<Rightarrow> Some (0, e, caps)
      | None \<Rightarrow>
          (case s of
             [] \<Rightarrow> None
           | c # cs \<Rightarrow>
               (case re_search ic p False cs of
                  None \<Rightarrow> None
                | Some (b, e, caps) \<Rightarrow> Some (Suc b, e, caps))))"

text \<open>The match object: \<^verbatim>\<open>m.group()\<close> and \<^verbatim>\<open>m.group(k)\<close>.\<close>

record rmatch =
  whole :: string
  grp :: "nat \<Rightarrow> string option"

definition slice :: "string \<Rightarrow> nat \<times> nat \<Rightarrow> string" where
  "slice s be = take (snd be - fst be) (drop (fst be) s)"

definition mk_match :: "string \<Rightarrow> nat \<Rightarrow> spans \<Rightarrow> rmatch" where
  "mk_match s e caps = \<lparr>whole = take e s, grp = (\<lambda>k. map_option (slice s) (caps k))\<rparr>"

text \<open>
  A replacement is a template, already parsed into literal text \<open>T\<close> and group
  references \<open>G\<close> (\<^verbatim>\<open>\1\<close> is \<open>G 1\<close>, the escape \<^verbatim>\<open>\n\<close> is a line feed
  inside a \<open>T\<close>), or a function of the match object.
\<close>

datatype tpl = T string | G nat

datatype repl = Template "tpl list" | Callable "rmatch \<Rightarrow> string"

fun expand_tpl :: "rmatch \<Rightarrow> tpl \<Rightarrow> string" where
  "expand_tpl m (T s) = s"
| "expand_tpl m (G k) = (case grp m k of None \<Rightarrow> [] | Some g \<Rightarrow> g)"

fun expand :: "repl \<Rightarrow> rmatch \<Rightarrow> string" where
  "expand (Template ts) m = concat (map (expand_tpl m) ts)"
| "expand (Callable f) m = f m"

lemma try_down_le:
  assumes "try_down f lo d = Some r"
  shows "\<exists>k. lo \<le> k \<and> k \<le> lo + d \<and> f k = Some r"
  using assms
proof (induction d)
  case 0
  then show ?case by auto
next
  case (Suc d)
  show ?case
  proof (cases "f (lo + Suc d)")
    case None
    with Suc.prems have "try_down f lo d = Some r" by simp
    from Suc.IH[OF this] show ?thesis by (auto intro: le_SucI)
  next
    case (Some a)
    with Suc.prems have "f (lo + Suc d) = Some r" by simp
    then show ?thesis by (intro exI[of _ "lo + Suc d"]) simp
  qed
qed

lemma run_length_le: "run_length ic c hi s \<le> length s"
  by (auto simp: run_length_def Let_def length_takeWhile_le split: option.splits
      intro: min.coboundedI2)

lemma re_match_bounds:
  "re_match ic p adv s pos st caps = Some (e, caps') \<Longrightarrow>
     pos \<le> e \<and> e \<le> pos + length s \<and> (adv \<longrightarrow> 0 < e)"
proof (induction p arbitrary: s pos st caps)
  case Nil
  then show ?case by (auto split: if_splits)
next
  case (Cons x r)
  show ?case
  proof (cases x)
    case (Rep c lo hi)
    with Cons.prems obtain k where k: "k \<le> run_length ic c hi s"
      and m: "re_match ic r adv (drop k s) (pos + k) st caps = Some (e, caps')"
      by (auto simp: Let_def split: if_splits dest!: try_down_le)
    from Cons.IH[OF m] k run_length_le[of ic c hi s] show ?thesis by auto
  next
    case (Open k)
    with Cons show ?thesis by auto
  next
    case (Close k)
    with Cons show ?thesis by auto
  qed
qed

lemma re_search_bounds:
  "re_search ic p adv s = Some (b, e, caps) \<Longrightarrow>
     b + e \<le> length s \<and> (adv \<and> b = 0 \<longrightarrow> 0 < e)"
proof (induction s arbitrary: adv b rule: list.induct)
  case Nil
  then show ?case by (auto split: option.splits dest: re_match_bounds)
next
  case (Cons c cs)
  show ?case
  proof (cases "re_match ic p adv (c # cs) 0 (\<lambda>k. 0) Map.empty")
    case (Some a)
    with Cons.prems show ?thesis by (cases a) (auto dest: re_match_bounds)
  next
    case None
    with Cons.prems obtain b' where b: "re_search ic p False cs = Some (b', e, caps)" "b = Suc b'"
      by (auto split: option.splits)
    from Cons.IH[OF b(1)] b(2) show ?thesis by simp
  qed
qed

text \<open>
  \<^verbatim>\<open>re.sub\<close>: the matches are found from left to right and do not overlap; the
  text between them is copied. After an empty match the next search starts at the same
  place and must advance.
\<close>

function re_sub_from :: "bool \<Rightarrow> item list \<Rightarrow> repl \<Rightarrow> bool \<Rightarrow> string \<Rightarrow> string" where
  "re_sub_from ic p r adv s =
     (case re_search ic p adv s of
        None \<Rightarrow> s
      | Some (b, e, caps) \<Rightarrow>
          take b s @ expand r (mk_match (drop b s) e caps)
            @ re_sub_from ic p r (e = 0) (drop (b + e) s))"
  by pat_completeness auto
termination
proof (relation "measure (\<lambda>(ic, p, r, adv, s). 2 * length s + (if adv then 0 else 1))")
  show "wf (measure (\<lambda>(ic, p, r, adv, s). 2 * length s + (if adv then 0 else 1)))"
    by simp
next
  fix ic p adv s x2 b y e caps
  fix r :: repl
  assume "re_search ic p adv s = Some x2" "(b, y) = x2" "(e, caps) = y"
  then have "re_search ic p adv s = Some (b, e, caps)" by simp
  from re_search_bounds[OF this]
  show "((ic, p, r, e = 0, drop (b + e) s), ic, p, r, adv, s)
          \<in> measure (\<lambda>(ic, p, r, adv, s). 2 * length s + (if adv then 0 else 1))"
    by (cases "b = 0") auto
qed

declare re_sub_from.simps [simp del]

definition re_sub :: "bool \<Rightarrow> item list \<Rightarrow> repl \<Rightarrow> string \<Rightarrow> string" where
  "re_sub ic p r s = re_sub_from ic p r False s"

definition re_found :: "bool \<Rightarrow> item list \<Rightarrow> string \<Rightarrow> bool" where
  "re_found ic p s = (re_search ic p False s \<noteq> None)"

text \<open>Pattern syntax: a literal text, the quantifiers and the capturing group.\<close>

definition lits :: "string \<Rightarrow> item list" where
  "lits w = map (\<lambda>c. Rep (One (Lit c)) 1 (Some 1)) w"

definition exactly :: "cls \<Rightarrow> nat \<Rightarrow> item list" where
  "exactly c n = [Rep c n (Some n)]"

definition opt :: "cls \<Rightarrow> item list" where
  "opt c = [Rep c 0 (Some 1)]"

definition star :: "cls \<Rightarrow> item list" where
  "star c = [Rep c 0 None]"

definition plus :: "cls \<Rightarrow> item list" where
  "plus c = [Rep c 1 None]"

definition group :: "nat \<Rightarrow> item list \<Rightarrow> item list" where
  "group k p = Open k # p @ [Close k]"

lemmas pattern_defs = lits_def exactly_def opt_def star_def plus_def group_def

section \<open>The text repair engine\<close>

text \<open>
  The table \<^verbatim>\<open>correcoes\<close> of \<^verbatim>\<open>corrigir_erros_contextuais\<close>, in the order of
  the source. The sixth pattern, \<^verbatim>\<open>40,621.411/0001-53\<close>, has an unescaped dot,
  which matches any character. The fifth replacement is the function
  \<^verbatim>\<open>lambda m: m.group().replace(' ', '')\<close>.
\<close>

definition correcoes :: "(item list \<times> repl) list" where
  "correcoes =
    [(lits ''05/05/2024'', Template [T ''05/09/2024'']),
     (lits ''16/0/2024'', Template [T ''16/09/2024'']),
     (group 1 (exactly (One Digit) 2) @ lits ''/'' @ group 2 (exactly (One Digit) 1) @ lits ''/''
        @ group 3 (exactly (One Digit) 4),
      Template [G 1, T ''/0'', G 2, T ''/'', G 3]),
     (lits ''ESGXBS DE'', Template [T ''B9OXB608'']),
     (exactly (Set [Rng CHR ''A'' CHR ''Z'', Rng CHR ''0'' CHR ''9'']) 8,
      Callable (\<lambda>m. str_replace (whole m) '' '' [])),
     (lits ''40,621'' @ exactly Dot 1 @ lits ''411/0001-53'', Template [T ''49.621.411/0001-93'']),
     (group 1 (exactly (One Digit) 1) @ lits ''0'' @ group 2 (exactly (One Digit) 3),
      Template [G 1, T ''.'', G 2]),
     (lits ''75000'', Template [T ''750,00'']),
     (group 1 (exactly (One Digit) 3) @ opt (One (Lit CHR ''.'')) @ group 2 (exactly (One Digit) 2),
      Template [G 1, T ''.'', G 2]),
     (lits (''FLETR'' @ [O_circ] @ ''ONICA''), Template [T (''ELETR'' @ [O_circ] @ ''NICA'')]),
     (lits ''Relatorode'', Template [T (''Relat'' @ [o_acute] @ ''rio de'')]),
     (lits (''DISCRIMINA'' @ [C_cedilla, A_tilde] @ ''O DOS SERVI'' @ [C_cedilla, O_tilde] @ ''E''),
      Template [T (''DISCRIMINA'' @ [C_cedilla, A_tilde] @ ''O DOS SERVI'' @ [C_cedilla] @ ''OS'')]),
     (lits ''[BPT'', Template [T ''IBPT''])]"

text \<open>
  The loop \<^verbatim>\<open>for padrao, substituicao in ...: texto = re.sub(...)\<close>, which both
  engines share; \<open>ic\<close> is the flag \<^verbatim>\<open>re.IGNORECASE\<close>.
\<close>

definition aplicar :: "bool \<Rightarrow> item list \<times> repl \<Rightarrow> string \<Rightarrow> string" where
  "aplicar ic regra texto = re_sub ic (fst regra) (snd regra) texto"

definition aplicar_regras :: "bool \<Rightarrow> (item list \<times> repl) list \<Rightarrow> string \<Rightarrow> string" where
  "aplicar_regras ic regras texto = foldl (\<lambda>t regra. aplicar ic regra t) texto regras"

definition corrigir_erros_contextuais :: "string \<Rightarrow> string" where
  "corrigir_erros_contextuais texto = aplicar_regras True correcoes texto"

section \<open>The structuring engine\<close>

text \<open>
  The table \<^verbatim>\<open>estruturas\<close> of \<^verbatim>\<open>estruturar_texto\<close>; the rules are applied in
  this order, without \<^verbatim>\<open>re.IGNORECASE\<close>.
\<close>

definition PRESTADOR :: string where
  "PRESTADOR = ''PRESTADOR DE SERVI'' @ [C_cedilla] @ ''OS''"

definition TOMADOR :: string where
  "TOMADOR = ''TOMADOR DE SERVI'' @ [C_cedilla] @ ''OS''"

definition DISCRIMINACAO :: string where
  "DISCRIMINACAO = ''DISCRIMINA'' @ [C_cedilla, A_tilde] @ ''O DOS SERVI'' @ [C_cedilla] @ ''OS''"

definition Numero_da_Nota :: string where
  "Numero_da_Nota = ''N'' @ [u_acute] @ ''mero da Nota''"

definition Data_e_Hora :: string where
  "Data_e_Hora = ''Data e Hora de Emiss'' @ [a_tilde] @ ''o''"

definition Codigo_de_Verificacao :: string where
  "Codigo_de_Verificacao = ''C'' @ [o_acute] @ ''digo de Verifica'' @ [c_cedilla, a_tilde] @ ''o''"

definition separador :: string where
  "separador = ''\<newline>------------------------------''"

lemmas label_defs =
  PRESTADOR_def TOMADOR_def DISCRIMINACAO_def Numero_da_Nota_def Data_e_Hora_def
  Codigo_de_Verificacao_def separador_def

definition estruturas :: "(item list \<times> repl) list" where
  "estruturas =
    [(group 1 (lits PRESTADOR), Template [T ''\<newline>\<newline>'', G 1, T separador]),
     (group 1 (lits TOMADOR), Template [T ''\<newline>\<newline>'', G 1, T separador]),
     (group 1 (lits DISCRIMINACAO), Template [T ''\<newline>\<newline>'', G 1, T separador]),
     (group 1 (lits Numero_da_Nota @ opt (One (Lit CHR '':''))) @ group 2 (star (One Space)),
      Template [T ''\<newline>'', G 1, T '' '']),
     (group 1 (lits Data_e_Hora @ opt (One (Lit CHR '':''))) @ group 2 (star Dot),
      Template [T ''\<newline>'', G 1, T '' '']),
     (group 1 (lits Codigo_de_Verificacao @ opt (One (Lit CHR '':''))) @ group 2 (star Dot),
      Template [T ''\<newline>'', G 1, T '' '']),
     (group 1 (plus (One Digit)) @ lits ''.'' @ plus (One Space)
        @ group 2 (exactly (Set [Rng CHR ''A'' CHR ''Z'']) 1),
      Template [G 1, T ''. '', G 2]),
     (lits ''R$'' @ star (One Space) @ group 1 (exactly (One Digit) 1),
      Template [T ''R$ '', G 1])]"

definition estruturar_texto :: "string \<Rightarrow> string" where
  "estruturar_texto texto = aplicar_regras False estruturas texto"

section \<open>The field validator\<close>

text \<open>
  The dictionary \<^verbatim>\<open>campos\<close> of \<^verbatim>\<open>validar_campos\<close> is read in insertion order,
  so it is an association list. A field is missing when none of its patterns is found
  by \<^verbatim>\<open>re.search\<close> under \<^verbatim>\<open>re.IGNORECASE\<close>.
\<close>

definition campos :: "(string \<times> item list list) list" where
  "campos =
    [(''NFS-e'',
      [lits ''NFS'' @ opt (One (Lit CHR ''-'')) @ lits ''e'',
       lits (''NOTA FISCAL DE SERVI'' @ [C_cedilla] @ ''OS ELETR'' @ [O_circ] @ ''NICA'')]),
     (''CNPJ Prestador'',
      [lits ''49'' @ opt (One (Lit CHR ''.'')) @ lits ''621'' @ opt (One (Lit CHR ''.''))
         @ lits ''411/0001'' @ opt (One (Lit CHR ''-'')) @ lits ''93'',
       lits ''Sustentamais Consultoria'']),
     (''Valor Total'',
      [lits ''R$'' @ star (One Space) @ lits ''750'' @ star (Set [Lit CHR '','', Digit]),
       lits ''VALOR TOTAL DA NOTA'' @ star Dot @ lits ''750''])]"

definition validar_campos :: "string \<Rightarrow> string list" where
  "validar_campos texto =
     map fst (filter (\<lambda>(campo, padroes). \<not> list_ex (\<lambda>padrao. re_found True padrao texto) padroes)
                campos)"

section \<open>The pipeline orchestrator\<close>

text \<open>
  The rasteriser, the image operations and the recognition engine are outside the
  program; they are taken as an environment of functions that return a value or raise.
  An error carries the text of \<^verbatim>\<open>str(e)\<close>. Logging is left out. The type
  \<open>config\<close> stands for the configuration string given to the engine, which contains
  characters beyond the code points of the text model: the constant of the program and
  the constant with a suffix added.
\<close>

datatype config = TESSERACT_CONFIG | Plus config string

record 'img env =
  convert_from_path :: "string \<Rightarrow> error + 'img list"
  cvtColor_RGB2BGR :: "'img \<Rightarrow> error + 'img"
  cvtColor_BGR2GRAY :: "'img \<Rightarrow> error + 'img"
  fastNlMeansDenoising :: "'img \<Rightarrow> error + 'img"
  clahe_apply :: "'img \<Rightarrow> error + 'img"
  adaptiveThreshold :: "'img \<Rightarrow> error + 'img"
  image_to_string :: "'img \<Rightarrow> config \<Rightarrow> error + string"

text \<open>Sequencing of steps that may raise.\<close>

definition seq :: "error + 'a \<Rightarrow> ('a \<Rightarrow> error + 'b) \<Rightarrow> error + 'b" where
  "seq m f = (case m of Inl e \<Rightarrow> Inl e | Inr x \<Rightarrow> f x)"

text \<open>
  \<^verbatim>\<open>preprocessamento_avancado\<close>: the four image steps; the handler logs and
  raises the same error again.
\<close>

definition preprocessamento_avancado :: "'img env \<Rightarrow> 'img \<Rightarrow> error + 'img" where
  "preprocessamento_avancado env imagem =
     seq (cvtColor_BGR2GRAY env imagem) (\<lambda>cinza.
     seq (fastNlMeansDenoising env cinza) (\<lambda>denoised.
     seq (clahe_apply env denoised) (\<lambda>equalizado.
     adaptiveThreshold env equalizado)))"

text \<open>
  The body of the page loop of \<^verbatim>\<open>processar_nfse\<close>: preprocessing, the first
  recognition pass, the second pass and the merge when the text has one of the trigger
  words, then repair and structuring.
\<close>

definition processar_pagina :: "'img env \<Rightarrow> 'img \<Rightarrow> error + string" where
  "processar_pagina env img =
     seq (cvtColor_RGB2BGR env img) (\<lambda>img_cv.
     seq (preprocessamento_avancado env img_cv) (\<lambda>img_processada.
     seq (image_to_string env img_processada TESSERACT_CONFIG) (\<lambda>texto.
     seq (if list_ex (\<lambda>termo. str_contains termo texto) [''R$'', ''CNPJ'', ''CPF'']
          then seq (image_to_string env img_processada
                      (Plus TESSERACT_CONFIG
                         '' --psm 11 -c tessedit_char_whitelist=0123456789R$.,/''))
                 (\<lambda>texto_numerico. merge_ocr texto texto_numerico)
          else Inr texto) (\<lambda>texto.
     Inr (estruturar_texto (corrigir_erros_contextuais texto))))))"

text \<open>
  The page loop with its accumulator \<^verbatim>\<open>texto_final\<close>, and the function itself
  with its handler \<^verbatim>\<open>except Exception as e\<close>.
\<close>

fun paginas :: "'img env \<Rightarrow> 'img list \<Rightarrow> string list \<Rightarrow> error + string list" where
  "paginas env [] texto_final = Inr texto_final"
| "paginas env (img # imagens) texto_final =
     seq (processar_pagina env img) (\<lambda>texto_estruturado.
     paginas env imagens (texto_final @ [texto_estruturado]))"

definition processar_nfse :: "'img env \<Rightarrow> string \<Rightarrow> string \<times> string" where
  "processar_nfse env pdf_path =
     (case seq (convert_from_path env pdf_path) (\<lambda>imagens. paginas env imagens []) of
        Inr texto_final \<Rightarrow>
          (let texto_unificado = str_join ''\<newline>'' texto_final;
               campos_faltantes = validar_campos texto_unificado
           in if campos_faltantes \<noteq> []
              then (''ERRO: Campos faltantes - '' @ str_join '', '' campos_faltantes,
                    texto_unificado)
              else (''Sucesso'', texto_unificado))
      | Inl (Error msg) \<Rightarrow> (''ERRO: '' @ msg, []))"


text \<open>
  A component raises on a page with a given message: the calls of the page body in the
  order of the source, each on the result of the one before; the first that raises
  gives the message. The second recognition pass is called only when the text of the
  first has one of the trigger words.
\<close>

definition componente_levanta :: "'img env \<Rightarrow> 'img \<Rightarrow> string \<Rightarrow> bool" where
  "componente_levanta env img msg =
     (case cvtColor_RGB2BGR env img of
        Inl e \<Rightarrow> e = Error msg
      | Inr img_cv \<Rightarrow>
     (case cvtColor_BGR2GRAY env img_cv of
        Inl e \<Rightarrow> e = Error msg
      | Inr cinza \<Rightarrow>
     (case fastNlMeansDenoising env cinza of
        Inl e \<Rightarrow> e = Error msg
      | Inr denoised \<Rightarrow>
     (case clahe_apply env denoised of
        Inl e \<Rightarrow> e = Error msg
      | Inr equalizado \<Rightarrow>
     (case adaptiveThreshold env equalizado of
        Inl e \<Rightarrow> e = Error msg
      | Inr img_processada \<Rightarrow>
     (case image_to_string env img_processada TESSERACT_CONFIG of
        Inl e \<Rightarrow> e = Error msg
      | Inr texto \<Rightarrow>
          list_ex (\<lambda>termo. str_contains termo texto) [''R$'', ''CNPJ'', ''CPF''] \<and>
          image_to_string env img_processada
            (Plus TESSERACT_CONFIG '' --psm 11 -c tessedit_char_whitelist=0123456789R$.,/'')
            = Inl (Error msg)))))))"

text \<open>The status text that goes with a list of missing fields.\<close>

definition status_de :: "string list \<Rightarrow> string" where
  "status_de campos_faltantes =
     (if campos_faltantes \<noteq> [] then ''ERRO: Campos faltantes - '' @ str_join '', '' campos_faltantes
      else ''Sucesso'')"

text \<open>A field is present when one of its patterns is found.\<close>

definition campo_presente :: "string \<Rightarrow> string \<Rightarrow> bool" where
  "campo_presente campo texto =
     (case map_of campos campo of
        None \<Rightarrow> False
      | Some padroes \<Rightarrow> list_ex (\<lambda>padrao. re_found True padrao texto) padroes)"

section \<open>Example environments\<close>

text \<open>
  Two-page documents whose image operations are identities: in \<open>ocr_ab\<close> the pages
  read \<^verbatim>\<open>a\<close> and \<^verbatim>\<open>b\<close>, in \<open>ocr_falha\<close> the engine raises on the second page.
\<close>

datatype folha = Folha1 | Folha2

definition env_exemplo :: "(folha \<Rightarrow> error + string) \<Rightarrow> folha list \<Rightarrow> folha env" where
  "env_exemplo ocr pages =
     \<lparr>convert_from_path = (\<lambda>p. Inr pages), cvtColor_RGB2BGR = Inr, cvtColor_BGR2GRAY = Inr,
      fastNlMeansDenoising = Inr, clahe_apply = Inr, adaptiveThreshold = Inr,
      image_to_string = (\<lambda>i c. ocr i)\<rparr>"

definition ocr_ab :: "folha \<Rightarrow> error + string" where
  "ocr_ab i = (if i = Folha1 then Inr ''a'' else Inr ''b'')"

definition ocr_falha :: "folha \<Rightarrow> error + string" where
  "ocr_falha i = (if i = Folha1 then Inr ''a'' else Inl (Error ''boom''))"

section \<open>Basic facts\<close>

lemma env_exemplo_convert: "convert_from_path (env_exemplo ocr pages) p = Inr pages"
  by (simp add: env_exemplo_def)

lemma seq_simps [simp]: "seq (Inl e) f = Inl e" "seq (Inr x) f = f x"
  by (simp_all add: seq_def)

lemma corrigir_a: "corrigir_erros_contextuais ''a'' = ''a''"
  by code_simp

lemma corrigir_b: "corrigir_erros_contextuais ''b'' = ''b''"
  by code_simp

lemma estruturar_a: "estruturar_texto ''a'' = ''a''"
  by code_simp

lemma estruturar_b: "estruturar_texto ''b'' = ''b''"
  by code_simp

lemma validar_ab: "validar_campos ''a\<newline>b'' = [''NFS-e'', ''CNPJ Prestador'', ''Valor Total'']"
  by code_simp

lemma pagina_ab_1: "processar_pagina (env_exemplo ocr_ab [Folha1, Folha2]) Folha1 = Inr ''a''"
  by (simp add: processar_pagina_def preprocessamento_avancado_def env_exemplo_def ocr_ab_def
      corrigir_a estruturar_a)

lemma pagina_ab_2: "processar_pagina (env_exemplo ocr_ab [Folha1, Folha2]) Folha2 = Inr ''b''"
  by (simp add: processar_pagina_def preprocessamento_avancado_def env_exemplo_def ocr_ab_def
      corrigir_b estruturar_b)

lemma pagina_falha_1: "processar_pagina (env_exemplo ocr_falha [Folha1, Folha2]) Folha1 = Inr ''a''"
  by (simp add: processar_pagina_def preprocessamento_avancado_def env_exemplo_def ocr_falha_def
      corrigir_a estruturar_a)

lemma pagina_falha_2: "processar_pagina (env_exemplo ocr_falha [Folha1, Folha2]) Folha2 = Inl (Error ''boom'')"
  by (simp add: processar_pagina_def preprocessamento_avancado_def env_exemplo_def ocr_falha_def)

lemma paginas_ok:
  "map (processar_pagina env) imagens = map Inr textos \<Longrightarrow>
     paginas env imagens acc = Inr (acc @ textos)"
proof (induction imagens arbitrary: acc textos)
  case Nil
  then show ?case by simp
next
  case (Cons img imagens)
  then obtain t ts where ts: "textos = t # ts" "processar_pagina env img = Inr t"
    "map (processar_pagina env) imagens = map Inr ts"
    by (cases textos) auto
  from Cons.IH[OF ts(3)] ts(1,2) show ?case by simp
qed

lemma paginas_falha:
  "\<forall>i\<in>set pre. \<exists>t. processar_pagina env i = Inr t \<Longrightarrow>
   processar_pagina env img = Inl e \<Longrightarrow>
     paginas env (pre @ img # post) acc = Inl e"
proof (induction pre arbitrary: acc)
  case Nil
  then show ?case by simp
next
  case (Cons i pre)
  then obtain t where "processar_pagina env i = Inr t" by auto
  with Cons show ?case by simp
qed

lemma merge_ocr_Inr: "\<exists>t. merge_ocr texto texto_numerico = Inr t"
  by (simp add: merge_ocr_def str_split_def)

lemma pagina_levanta:
  "processar_pagina env img = Inl (Error msg) \<longleftrightarrow> componente_levanta env img msg"
proof -
  have m: "\<And>a b. merge_ocr a b \<noteq> Inl (Error msg)"
    using merge_ocr_Inr by (metis sum.distinct(1))
  show ?thesis
    unfolding processar_pagina_def preprocessamento_avancado_def componente_levanta_def
    by (auto simp: seq_def m split: sum.splits if_splits)
qed

lemma pagina_sem_erro:
  assumes "\<forall>m. \<not> componente_levanta env img m"
  shows "\<exists>t. processar_pagina env img = Inr t"
proof (cases "processar_pagina env img")
  case (Inl e)
  obtain m where "e = Error m" by (cases e)
  with Inl assms pagina_levanta[of env img m] show ?thesis by simp
next
  case (Inr t)
  then show ?thesis by blast
qed

lemma levanta_exemplo:
  "\<not> componente_levanta (env_exemplo ocr_falha [Folha1, Folha2]) Folha1 m"
  "componente_levanta (env_exemplo ocr_falha [Folha1, Folha2]) Folha2 ''boom''"
  by (simp_all add: componente_levanta_def env_exemplo_def ocr_falha_def)

lemma split_scan_none:
  "sep \<noteq> [] \<Longrightarrow> \<not> str_contains sep s \<Longrightarrow> split_scan sep cur s = [rev cur @ s]"
  by (induction s arbitrary: cur) auto

lemma validar_campos_filter:
  "validar_campos texto =
     filter (\<lambda>campo. \<not> campo_presente campo texto) [''NFS-e'', ''CNPJ Prestador'', ''Valor Total'']"
  by (simp add: validar_campos_def campo_presente_def campos_def)

lemma presente_exemplo:
  "campo_presente ''NFS-e'' ''NFS-e 49.621.411/0001-93 R$ 750,00''"
  "campo_presente ''CNPJ Prestador'' ''NFS-e 49.621.411/0001-93 R$ 750,00''"
  "campo_presente ''Valor Total'' ''NFS-e 49.621.411/0001-93 R$ 750,00''"
  by code_simp+

lemma ausente_exemplo:
  "campo_presente ''NFS-e'' ''NFS-e 49.621.411/0001-93 R$ 75''"
  "campo_presente ''CNPJ Prestador'' ''NFS-e 49.621.411/0001-93 R$ 75''"
  "\<not> campo_presente ''Valor Total'' ''NFS-e 49.621.411/0001-93 R$ 75''"
  by code_simp+

section \<open>Facts about matching and substitution\<close>

lemma re_search_match:
  "re_search ic p adv s = Some (b, e, caps) \<Longrightarrow>
     \<exists>adv'. re_match ic p adv' (drop b s) 0 (\<lambda>k. 0) Map.empty = Some (e, caps)"
proof (induction s arbitrary: adv b)
  case Nil
  then show ?case by (auto split: option.splits)
next
  case (Cons c cs)
  show ?case
  proof (cases "re_match ic p adv (c # cs) 0 (\<lambda>k. 0) Map.empty")
    case (Some a)
    with Cons.prems show ?thesis by (cases a) auto
  next
    case None
    with Cons.prems obtain b' where b: "re_search ic p False cs = Some (b', e, caps)" "b = Suc b'"
      by (auto split: option.splits)
    from Cons.IH[OF b(1)] b(2) show ?thesis by simp
  qed
qed

lemma take_take_drop: "take b s @ take e (drop b s) @ drop (b + e) s = s"
  by (metis append_assoc append_take_drop_id take_add)

lemma re_sub_from_self:
  "(\<And>s adv b e caps. re_search ic p adv s = Some (b, e, caps) \<Longrightarrow>
             expand r (mk_match (drop b s) e caps) = take e (drop b s)) \<Longrightarrow>
   re_sub_from ic p r adv s = s"
proof (induction ic p r adv s rule: re_sub_from.induct)
  case (1 ic p r adv s)
  show ?case
  proof (cases "re_search ic p adv s")
    case None
    then show ?thesis by (simp add: re_sub_from.simps)
  next
    case (Some a)
    obtain b e caps where a: "a = (b, e, caps)" by (cases a)
    have found: "re_search ic p adv s = Some (b, e, caps)" using Some a by simp
    have rest: "re_sub_from ic p r (e = 0) (drop (b + e) s) = drop (b + e) s"
      using "1.IH"[OF found refl refl] "1.prems" by blast
    have "re_sub_from ic p r adv s =
            take b s @ expand r (mk_match (drop b s) e caps) @ drop (b + e) s"
      using found rest by (subst re_sub_from.simps) simp
    also have "\<dots> = take b s @ take e (drop b s) @ drop (b + e) s"
      using "1.prems"[OF found] by simp
    finally show ?thesis by (simp add: take_take_drop)
  qed
qed

lemma takeWhile_take_all: "k \<le> length (takeWhile P s) \<Longrightarrow> \<forall>x\<in>set (take k s). P x"
proof (induction s arbitrary: k)
  case Nil
  then show ?case by simp
next
  case (Cons a s)
  then show ?case by (cases k) (auto split: if_splits)
qed

lemma re_match_exactly:
  assumes "re_match ic (exactly c n) adv s 0 st caps = Some (e, caps')"
  shows "e = n \<and> (\<forall>x\<in>set (take n s). cls_ok ic c x)"
proof -
  from assms have n: "n \<le> run_length ic c (Some n) s" and e: "e = n"
    by (auto simp: exactly_def Let_def run_length_def split: if_splits)
  from n have "n \<le> length (takeWhile (cls_ok ic c) s)"
    by (simp add: run_length_def)
  from takeWhile_take_all[OF this] e show ?thesis by simp
qed

lemma replace_scan_space: "CHR '' '' \<notin> set m \<Longrightarrow> replace_scan '' '' [] m = m"
  by (induction m) auto

lemma alnum_not_space:
  "\<not> cls_ok True (Set [Rng CHR ''A'' CHR ''Z'', Rng CHR ''0'' CHR ''9'']) CHR '' ''"
  by (auto simp: cp_def unicode_tolower_def split: if_splits)

lemma try_down_first: "f (lo + d) = Some r \<Longrightarrow> try_down f lo d = Some r"
  by (cases d) auto

lemma run_length_lit:
  "run_length False (One (Lit c)) (Some (Suc 0)) s =
     (case s of [] \<Rightarrow> 0 | x # xs \<Rightarrow> if x = c then Suc 0 else 0)"
  by (cases s) (auto simp: run_length_def)

lemma lits_simps: "lits [] = []" "lits (c # w) = Rep (One (Lit c)) (Suc 0) (Some (Suc 0)) # lits w"
  by (simp_all add: lits_def)

lemma re_match_lits:
  "re_match False (lits w @ q) adv s pos st caps =
     (if prefix w s then re_match False q adv (drop (length w) s) (pos + length w) st caps
      else None)"
proof (induction w arbitrary: s pos)
  case Nil
  then show ?case by (simp add: lits_simps)
next
  case (Cons c w)
  show ?case
  proof (cases s)
    case Nil
    then show ?thesis by (simp add: lits_simps run_length_lit)
  next
    case (Cons x xs)
    then show ?thesis by (simp add: lits_simps run_length_lit Cons.IH)
  qed
qed



lemma re_sub_from_none:
  "re_search ic p adv s = None \<Longrightarrow> re_sub_from ic p r adv s = s"
  by (subst re_sub_from.simps) simp

lemma str_contains_iff: "str_contains w t \<longleftrightarrow> (\<exists>u v. t = u @ w @ v)"
proof (induction t)
  case Nil
  then show ?case by auto
next
  case (Cons c t)
  show ?case
  proof
    assume "str_contains w (c # t)"
    then consider "prefix w (c # t)" | "str_contains w t" by auto
    then show "\<exists>u v. c # t = u @ w @ v"
    proof cases
      case 1
      then obtain v where "c # t = w @ v" by (auto simp: prefix_def)
      then have "c # t = [] @ w @ v" by simp
      then show ?thesis by blast
    next
      case 2
      with Cons.IH obtain u v where "t = u @ w @ v" by blast
      then have "c # t = (c # u) @ w @ v" by simp
      then show ?thesis by blast
    qed
  next
    assume "\<exists>u v. c # t = u @ w @ v"
    then obtain u v where uv: "c # t = u @ w @ v" by blast
    show "str_contains w (c # t)"
    proof (cases u)
      case Nil
      with uv have "prefix w (c # t)" by (simp add: prefix_def)
      then show ?thesis by simp
    next
      case (Cons x u')
      with uv have "t = u' @ w @ v" by simp
      with Cons.IH have "str_contains w t" by blast
      then show ?thesis by simp
    qed
  qed
qed






lemma re_match_Nil:
  "re_match ic [] adv s pos st caps = (if adv \<and> pos = 0 then None else Some (pos, caps))"
  by simp

lemma re_match_Open:
  "re_match ic (Open k # r) adv s pos st caps = re_match ic r adv s pos (st(k := pos)) caps"
  by simp

lemma re_match_Close:
  "re_match ic (Close k # r) adv s pos st caps =
     re_match ic r adv s pos st (caps(k \<mapsto> (st k, pos)))"
  by simp

lemma re_match_Rep:
  "re_match ic (Rep c lo hi # r) adv s pos st caps =
     (if run_length ic c hi s < lo then None
      else try_down (\<lambda>k. re_match ic r adv (drop k s) (pos + k) st caps) lo
             (run_length ic c hi s - lo))"
  by (simp add: Let_def)








section \<open>The spacing rules of the structuring engine\<close>

text \<open>
  The character classes of the two spacing rules of the structuring engine, the seventh
  (\<^verbatim>\<open>(\d+)\.\s+([A-Z])\<close>, a list marker) and the eighth (\<^verbatim>\<open>R\$\s*(\d)\<close>, the
  currency marker).
\<close>

definition digit_ch :: "char \<Rightarrow> bool" where "digit_ch c = is_decimal (cp c)"
definition space_ch :: "char \<Rightarrow> bool" where "space_ch c = is_space (cp c)"
definition upper_ch :: "char \<Rightarrow> bool" where "upper_ch c = (65 \<le> cp c \<and> cp c \<le> 90)"

lemma class_disjoint:
  "digit_ch c \<Longrightarrow> \<not> space_ch c" "digit_ch c \<Longrightarrow> \<not> upper_ch c" "space_ch c \<Longrightarrow> \<not> upper_ch c"
  "digit_ch c \<Longrightarrow> c \<noteq> CHR ''.''" "digit_ch c \<Longrightarrow> c \<noteq> CHR ''$''" "digit_ch c \<Longrightarrow> c \<noteq> CHR ''R''"
  "digit_ch c \<Longrightarrow> c \<noteq> CHR '' ''" "space_ch c \<Longrightarrow> c \<noteq> CHR ''$''" "space_ch c \<Longrightarrow> c \<noteq> CHR ''.''"
  "space_ch c \<Longrightarrow> c \<noteq> CHR ''R''" "upper_ch c \<Longrightarrow> c \<noteq> CHR ''$''" "upper_ch c \<Longrightarrow> c \<noteq> CHR ''.''"
  "upper_ch c \<Longrightarrow> c \<noteq> CHR '' ''"
  by (auto simp: digit_ch_def space_ch_def upper_ch_def is_decimal_def is_space_def cp_def)

lemma space_ch_space: "space_ch CHR '' ''"
  by (simp add: space_ch_def is_space_def cp_def)

lemma cls_ok_simps:
  "cls_ok False (One Digit) = digit_ch" "cls_ok False (One Space) = space_ch"
  "cls_ok False (Set [Rng CHR ''A'' CHR ''Z'']) = upper_ch"
  by (auto simp: fun_eq_iff digit_ch_def space_ch_def upper_ch_def cp_def)

lemma takeWhile_run: "list_all P xs \<Longrightarrow> \<not> P y \<Longrightarrow> takeWhile P (xs @ y # ys) = xs"
  by (induction xs) auto

lemma run_length_run:
  "list_all (cls_ok ic c) xs \<Longrightarrow> \<not> cls_ok ic c y \<Longrightarrow> run_length ic c None (xs @ y # ys) = length xs"
  by (simp add: run_length_def takeWhile_run)

lemma run_length_one:
  "run_length ic c (Some (Suc 0)) s = (case s of [] \<Rightarrow> 0 | x # xs \<Rightarrow> if cls_ok ic c x then Suc 0 else 0)"
  by (cases s) (auto simp: run_length_def)

lemma run_length_take:
  "k \<le> run_length ic c None s \<Longrightarrow> list_all (cls_ok ic c) (take k s)"
  using takeWhile_take_all[of k "cls_ok ic c" s] by (simp add: run_length_def list_all_iff)

definition list_pattern :: "item list" where "list_pattern = fst (estruturas ! 6)"
definition money_pattern :: "item list" where "money_pattern = fst (estruturas ! 7)"

lemma list_pattern_unfold:
  "list_pattern = [Open 1, Rep (One Digit) (Suc 0) None, Close 1] @ lits ''.'' @
        [Rep (One Space) (Suc 0) None, Open 2, Rep (Set [Rng CHR ''A'' CHR ''Z'']) (Suc 0) (Some (Suc 0)), Close 2]"
  by (simp add: list_pattern_def estruturas_def group_def plus_def exactly_def)

lemma money_pattern_unfold:
  "money_pattern = lits ''R$'' @ [Rep (One Space) 0 None, Open 1, Rep (One Digit) (Suc 0) (Some (Suc 0)), Close 1]"
  by (simp add: money_pattern_def estruturas_def group_def star_def exactly_def)

text \<open>
  The texts that the two patterns match: digits, a point, white space and a capital
  letter; the marker \<^verbatim>\<open>R$\<close>, white space and a digit.
\<close>

definition list_shape :: "string \<Rightarrow> string \<Rightarrow> char \<Rightarrow> bool" where
  "list_shape ds ws X = (ds \<noteq> [] \<and> list_all digit_ch ds \<and> ws \<noteq> [] \<and> list_all space_ch ws \<and> upper_ch X)"

definition money_shape :: "string \<Rightarrow> char \<Rightarrow> bool" where
  "money_shape ws d = (list_all space_ch ws \<and> digit_ch d)"

text \<open>From here on the matcher is unfolded one item at a time.\<close>

declare re_match.simps [simp del]

lemma re_match_Rep_greedy:
  assumes "run_length ic c hi s = n" and "lo \<le> n"
    and "re_match ic r adv (drop n s) (pos + n) st caps = Some res"
  shows "re_match ic (Rep c lo hi # r) adv s pos st caps = Some res"
proof -
  have "try_down (\<lambda>k. re_match ic r adv (drop k s) (pos + k) st caps) lo (n - lo) = Some res"
    using assms(2,3) by (intro try_down_first) simp
  with assms(1,2) show ?thesis by (subst re_match_Rep) simp
qed

lemma money_pattern_hit:
  assumes "money_shape ws d"
  shows "\<exists>caps. re_match False money_pattern False (''R$'' @ ws @ d # rest) 0 (\<lambda>k. 0) Map.empty =
           Some (Suc (Suc (Suc (length ws))), caps) \<and>
           caps 1 = Some (Suc (Suc (length ws)), Suc (Suc (Suc (length ws))))"
proof -
  let ?q = "[Open 1, Rep (One Digit) (Suc 0) (Some (Suc 0)), Close 1]"
  from assms have ws: "list_all space_ch ws" and d: "digit_ch d" by (simp_all add: money_shape_def)
  have rl: "run_length False (One Space) None (ws @ d # rest) = length ws"
    using ws d by (intro run_length_run) (simp_all add: cls_ok_simps class_disjoint)
  have last: "re_match False ?q False (d # rest) (Suc (Suc (length ws))) (\<lambda>k. 0) Map.empty =
              Some (Suc (Suc (Suc (length ws))),
                    [1 \<mapsto> (Suc (Suc (length ws)), Suc (Suc (Suc (length ws))))])"
    using d
    by (simp add: re_match_Open re_match_Rep re_match_Close re_match_Nil run_length_one cls_ok_simps)
  have "re_match False money_pattern False (''R$'' @ ws @ d # rest) 0 (\<lambda>k. 0) Map.empty =
        re_match False (Rep (One Space) 0 None # ?q) False (ws @ d # rest) (Suc (Suc 0)) (\<lambda>k. 0) Map.empty"
    by (simp add: money_pattern_unfold re_match_lits)
  also have "\<dots> = Some (Suc (Suc (Suc (length ws))),
                    [1 \<mapsto> (Suc (Suc (length ws)), Suc (Suc (Suc (length ws))))])"
    by (rule re_match_Rep_greedy[OF rl]) (use last in simp_all)
  finally show ?thesis by simp
qed

lemma money_pattern_inv:
  assumes "re_match False money_pattern adv s 0 st caps = Some (e, caps')"
  shows "\<exists>ws d rest. s = ''R$'' @ ws @ d # rest \<and> money_shape ws d"
proof -
  let ?q = "[Open 1, Rep (One Digit) (Suc 0) (Some (Suc 0)), Close 1]"
  let ?s2 = "drop (Suc (Suc 0)) s"
  from assms have pre: "prefix ''R$'' s"
    and m: "re_match False (Rep (One Space) 0 None # ?q) adv ?s2 (Suc (Suc 0)) st caps = Some (e, caps')"
    by (simp_all add: money_pattern_unfold re_match_lits split: if_splits)
  from m obtain k where k: "k \<le> run_length False (One Space) None ?s2"
    and mk: "re_match False ?q adv (drop k ?s2) (Suc (Suc 0) + k) st caps = Some (e, caps')"
    by (subst (asm) re_match_Rep) (auto dest!: try_down_le)
  from mk obtain d rest where dr: "drop k ?s2 = d # rest" and d: "digit_ch d"
    by (cases "drop k ?s2")
       (auto simp: re_match_Open re_match_Rep run_length_one cls_ok_simps split: if_splits)
  from run_length_take[OF k] have ws: "list_all space_ch (take k ?s2)" by (simp add: cls_ok_simps)
  from pre have "s = ''R$'' @ ?s2" by (auto simp: prefix_def)
  also have "?s2 = take k ?s2 @ drop k ?s2" by (simp only: append_take_drop_id)
  finally have "s = ''R$'' @ take k ?s2 @ d # rest" by (simp only: dr)
  with ws d show ?thesis unfolding money_shape_def by blast
qed


lemma re_match_Rep_inv:
  assumes "re_match ic (Rep c lo hi # r) adv s pos st caps = Some res"
  shows "\<exists>k. lo \<le> k \<and> k \<le> run_length ic c hi s \<and>
             re_match ic r adv (drop k s) (pos + k) st caps = Some res"
proof -
  from assms have n: "lo \<le> run_length ic c hi s"
    and t: "try_down (\<lambda>k. re_match ic r adv (drop k s) (pos + k) st caps) lo
              (run_length ic c hi s - lo) = Some res"
    by (simp_all add: re_match_Rep split: if_splits)
  from try_down_le[OF t] n show ?thesis by auto
qed

lemma list_pattern_hit:
  assumes "list_shape ds ws X"
  shows "\<exists>caps. re_match False list_pattern False (ds @ CHR ''.'' # ws @ X # rest) 0 (\<lambda>k. 0) Map.empty =
           Some (Suc (Suc (length ds + length ws)), caps) \<and>
           caps 1 = Some (0, length ds) \<and>
           caps 2 = Some (Suc (length ds + length ws), Suc (Suc (length ds + length ws)))"
proof -
  let ?q3 = "[Open 2, Rep (Set [Rng CHR ''A'' CHR ''Z'']) (Suc 0) (Some (Suc 0)), Close 2]"
  let ?q2 = "Rep (One Space) (Suc 0) None # ?q3"
  let ?q1 = "Close 1 # lits ''.'' @ ?q2"
  let ?st = "(\<lambda>k::nat. 0::nat)(1 := 0)"
  let ?c1 = "[1::nat \<mapsto> (0::nat, length ds)]"
  let ?res = "(Suc (Suc (length ds + length ws)),
               [1::nat \<mapsto> (0::nat, length ds),
                2 \<mapsto> (Suc (length ds + length ws), Suc (Suc (length ds + length ws)))])"
  from assms have ds: "ds \<noteq> []" "list_all digit_ch ds" and ws: "ws \<noteq> []" "list_all space_ch ws"
    and X: "upper_ch X" by (simp_all add: list_shape_def)
  have rl1: "run_length False (One Digit) None (ds @ CHR ''.'' # ws @ X # rest) = length ds"
    using ds by (intro run_length_run) (auto simp: cls_ok_simps dest: class_disjoint)
  have rl2: "run_length False (One Space) None (ws @ X # rest) = length ws"
    using ws X by (intro run_length_run) (auto simp: cls_ok_simps dest: class_disjoint)
  have m3: "re_match False ?q3 False (X # rest) (Suc (length ds + length ws)) ?st ?c1 = Some ?res"
    using X
    by (simp add: re_match_Open re_match_Rep re_match_Close re_match_Nil run_length_one cls_ok_simps)
  have m2: "re_match False ?q2 False (ws @ X # rest) (Suc (length ds)) ?st ?c1 = Some ?res"
    by (rule re_match_Rep_greedy[OF rl2]) (use ws m3 in \<open>simp_all add: Suc_le_eq\<close>)
  have m1: "re_match False ?q1 False (CHR ''.'' # ws @ X # rest) (length ds) ?st Map.empty = Some ?res"
    using m2 by (simp add: re_match_Close re_match_lits)
  have "re_match False (Rep (One Digit) (Suc 0) None # ?q1) False
          (ds @ CHR ''.'' # ws @ X # rest) 0 ?st Map.empty = Some ?res"
    by (rule re_match_Rep_greedy[OF rl1]) (use ds m1 in \<open>simp_all add: Suc_le_eq\<close>)
  then have "re_match False list_pattern False (ds @ CHR ''.'' # ws @ X # rest) 0 (\<lambda>k. 0) Map.empty = Some ?res"
    by (simp add: list_pattern_unfold re_match_Open)
  then show ?thesis by simp
qed

lemma list_pattern_inv:
  assumes "re_match False list_pattern adv s 0 st caps = Some (e, caps')"
  shows "\<exists>ds ws X rest. s = ds @ CHR ''.'' # ws @ X # rest \<and> list_shape ds ws X"
proof -
  let ?q3 = "[Open 2, Rep (Set [Rng CHR ''A'' CHR ''Z'']) (Suc 0) (Some (Suc 0)), Close 2]"
  let ?q2 = "Rep (One Space) (Suc 0) None # ?q3"
  let ?q1 = "Close 1 # lits ''.'' @ ?q2"
  from assms have "re_match False (Rep (One Digit) (Suc 0) None # ?q1) adv s 0 (st(1 := 0)) caps
                     = Some (e, caps')"
    by (simp add: list_pattern_unfold re_match_Open)
  from re_match_Rep_inv[OF this] obtain k1 where k1: "Suc 0 \<le> k1"
    "k1 \<le> run_length False (One Digit) None s"
    and m1: "re_match False ?q1 adv (drop k1 s) (0 + k1) (st(1 := 0)) caps = Some (e, caps')"
    by blast
  let ?s3 = "drop (Suc 0) (drop k1 s)"
  from m1 obtain st2 caps2 pos2 where dot: "prefix ''.'' (drop k1 s)"
    and m2: "re_match False ?q2 adv ?s3 pos2 st2 caps2 = Some (e, caps')"
    by (auto simp: re_match_Close re_match_lits split: if_splits)
  from re_match_Rep_inv[OF m2] obtain k2 where k2: "Suc 0 \<le> k2"
    "k2 \<le> run_length False (One Space) None ?s3"
    and m3: "re_match False ?q3 adv (drop k2 ?s3) (pos2 + k2) st2 caps2 = Some (e, caps')"
    by blast
  from m3 obtain X rest where Xr: "drop k2 ?s3 = X # rest" and X: "upper_ch X"
    by (cases "drop k2 ?s3")
       (auto simp: re_match_Open re_match_Rep run_length_one cls_ok_simps split: if_splits)
  have ds: "list_all digit_ch (take k1 s)" using run_length_take[OF k1(2)] by (simp add: cls_ok_simps)
  have ws: "list_all space_ch (take k2 ?s3)" using run_length_take[OF k2(2)] by (simp add: cls_ok_simps)
  have "k1 \<le> length s" using k1(2) run_length_le[of False "One Digit" None s] by simp
  with k1(1) have dsne: "take k1 s \<noteq> []" by auto
  have "k2 \<le> length ?s3" using k2(2) run_length_le[of False "One Space" None ?s3] by simp
  with k2(1) have wsne: "take k2 ?s3 \<noteq> []" by auto
  from dot have d2: "drop k1 s = CHR ''.'' # ?s3" by (cases "drop k1 s") auto
  have "s = take k1 s @ drop k1 s" by (simp only: append_take_drop_id)
  also have "drop k1 s = CHR ''.'' # ?s3" by (rule d2)
  also have "?s3 = take k2 ?s3 @ drop k2 ?s3" by (simp only: append_take_drop_id)
  finally have "s = take k1 s @ CHR ''.'' # take k2 ?s3 @ X # rest" by (simp only: Xr)
  with ds ws dsne wsne X show ?thesis unfolding list_shape_def by blast
qed

subsection \<open>One step of a substitution\<close>

lemma re_sub_hit:
  assumes "re_match ic p False s 0 (\<lambda>k. 0) Map.empty = Some (e, caps)" and "0 < e"
  shows "re_sub ic p r s = expand r (mk_match s e caps) @ re_sub ic p r (drop e s)"
  using assms unfolding re_sub_def by (subst re_sub_from.simps) simp

lemma re_sub_copy:
  assumes "re_match ic p False (c # cs) 0 (\<lambda>k. 0) Map.empty = None"
  shows "re_sub ic p r (c # cs) = c # re_sub ic p r cs"
proof (cases "re_search ic p False cs")
  case None
  then have "re_search ic p False (c # cs) = None" using assms by simp
  with None show ?thesis
    unfolding re_sub_def by (simp add: re_sub_from_none)
next
  case (Some a)
  obtain b e caps where a: "a = (b, e, caps)" by (cases a)
  with Some assms have s: "re_search ic p False (c # cs) = Some (Suc b, e, caps)" by simp
  have "re_sub_from ic p r False (c # cs) =
          take (Suc b) (c # cs) @ expand r (mk_match (drop (Suc b) (c # cs)) e caps)
            @ re_sub_from ic p r (e = 0) (drop (Suc b + e) (c # cs))"
    using s by (subst re_sub_from.simps) simp
  moreover have "re_sub_from ic p r False cs =
          take b cs @ expand r (mk_match (drop b cs) e caps)
            @ re_sub_from ic p r (e = 0) (drop (b + e) cs)"
    using Some a by (subst re_sub_from.simps) simp
  ultimately show ?thesis unfolding re_sub_def by simp
qed

lemma re_sub_Nil:
  assumes "re_match ic p False [] 0 (\<lambda>k. 0) Map.empty = None"
  shows "re_sub ic p r [] = []"
  using assms unfolding re_sub_def by (simp add: re_sub_from_none)

subsection \<open>The two spacing rules as recursive equations\<close>

definition list_rule :: "string \<Rightarrow> string" where "list_rule = aplicar False (estruturas ! 6)"
definition money_rule :: "string \<Rightarrow> string" where "money_rule = aplicar False (estruturas ! 7)"

lemma list_rule_unfold: "list_rule s = re_sub False list_pattern (Template [G 1, T ''. '', G 2]) s"
  by (simp add: list_rule_def aplicar_def list_pattern_def estruturas_def)

lemma money_rule_unfold: "money_rule s = re_sub False money_pattern (Template [T ''R$ '', G 1]) s"
  by (simp add: money_rule_def aplicar_def money_pattern_def estruturas_def)

definition list_hit :: "string \<Rightarrow> bool" where
  "list_hit s = (\<exists>ds ws X rest. s = ds @ CHR ''.'' # ws @ X # rest \<and> list_shape ds ws X)"

definition money_hit :: "string \<Rightarrow> bool" where
  "money_hit s = (\<exists>ws d rest. s = ''R$'' @ ws @ d # rest \<and> money_shape ws d)"

lemma list_pattern_miss: "\<not> list_hit s \<Longrightarrow> re_match False list_pattern adv s 0 st caps = None"
proof (cases "re_match False list_pattern adv s 0 st caps")
  case None
  then show ?thesis by simp
next
  case (Some a)
  assume "\<not> list_hit s"
  moreover obtain e caps' where "a = (e, caps')" by (cases a)
  ultimately show ?thesis using list_pattern_inv[of adv s st caps e caps'] Some by (auto simp: list_hit_def)
qed

lemma money_pattern_miss: "\<not> money_hit s \<Longrightarrow> re_match False money_pattern adv s 0 st caps = None"
proof (cases "re_match False money_pattern adv s 0 st caps")
  case None
  then show ?thesis by simp
next
  case (Some a)
  assume "\<not> money_hit s"
  moreover obtain e caps' where "a = (e, caps')" by (cases a)
  ultimately show ?thesis using money_pattern_inv[of adv s st caps e caps'] Some by (auto simp: money_hit_def)
qed

lemma not_list_hit_Nil: "\<not> list_hit []"
  by (simp add: list_hit_def)

lemma not_money_hit_Nil: "\<not> money_hit []"
  by (simp add: money_hit_def)

lemma list_rule_Nil: "list_rule [] = []"
  by (simp add: list_rule_unfold re_sub_Nil list_pattern_miss not_list_hit_Nil)

lemma money_rule_Nil: "money_rule [] = []"
  by (simp add: money_rule_unfold re_sub_Nil money_pattern_miss not_money_hit_Nil)

lemma list_rule_copy: "\<not> list_hit (c # cs) \<Longrightarrow> list_rule (c # cs) = c # list_rule cs"
  by (simp add: list_rule_unfold re_sub_copy list_pattern_miss)

lemma money_rule_copy: "\<not> money_hit (c # cs) \<Longrightarrow> money_rule (c # cs) = c # money_rule cs"
  by (simp add: money_rule_unfold re_sub_copy money_pattern_miss)

lemma list_rule_hit:
  assumes "list_shape ds ws X"
  shows "list_rule (ds @ CHR ''.'' # ws @ X # rest) = ds @ ''. '' @ X # list_rule rest"
proof -
  let ?s = "ds @ CHR ''.'' # ws @ X # rest"
  from list_pattern_hit[OF assms, of rest] obtain caps where
    m: "re_match False list_pattern False ?s 0 (\<lambda>k. 0) Map.empty = Some (Suc (Suc (length ds + length ws)), caps)"
    and c1: "caps 1 = Some (0, length ds)"
    and c2: "caps 2 = Some (Suc (length ds + length ws), Suc (Suc (length ds + length ws)))"
    by blast
  have d: "drop (Suc (Suc (length ds + length ws))) ?s = rest" by simp
  have e: "expand (Template [G 1, T ''. '', G 2]) (mk_match ?s (Suc (Suc (length ds + length ws))) caps)
             = ds @ ''. '' @ [X]"
    using c1 c2 by (simp add: mk_match_def slice_def)
  show ?thesis
    unfolding list_rule_unfold by (subst re_sub_hit[OF m]) (simp_all only: d e, simp_all)
qed

lemma money_rule_hit:
  assumes "money_shape ws d"
  shows "money_rule (''R$'' @ ws @ d # rest) = ''R$ '' @ d # money_rule rest"
proof -
  let ?s = "''R$'' @ ws @ d # rest"
  from money_pattern_hit[OF assms, of rest] obtain caps where
    m: "re_match False money_pattern False ?s 0 (\<lambda>k. 0) Map.empty = Some (Suc (Suc (Suc (length ws))), caps)"
    and c1: "caps 1 = Some (Suc (Suc (length ws)), Suc (Suc (Suc (length ws))))"
    by blast
  have d: "drop (Suc (Suc (Suc (length ws)))) ?s = rest" by simp
  have e: "expand (Template [T ''R$ '', G 1]) (mk_match ?s (Suc (Suc (Suc (length ws)))) caps)
             = ''R$ '' @ [d]"
    using c1 by (simp add: mk_match_def slice_def)
  show ?thesis
    unfolding money_rule_unfold by (subst re_sub_hit[OF m]) (simp_all only: d e, simp_all)
qed

lemma list_rule_induct [case_names Nil copy hit]:
  assumes "P []"
    and "\<And>c cs. \<not> list_hit (c # cs) \<Longrightarrow> P cs \<Longrightarrow> P (c # cs)"
    and "\<And>ds ws X rest. list_shape ds ws X \<Longrightarrow> P rest \<Longrightarrow> P (ds @ CHR ''.'' # ws @ X # rest)"
  shows "P s"
proof (induction s rule: length_induct)
  case (1 s)
  show ?case
  proof (cases "list_hit s")
    case True
    then obtain ds ws X rest where s: "s = ds @ CHR ''.'' # ws @ X # rest" and sh: "list_shape ds ws X"
      by (auto simp: list_hit_def)
    then have "length rest < length s" by simp
    with 1 have "P rest" by blast
    from assms(3)[OF sh this] s show ?thesis by simp
  next
    case False
    show ?thesis
    proof (cases s)
      case Nil
      with assms(1) show ?thesis by simp
    next
      case (Cons c cs)
      with 1 have "P cs" by simp
      with assms(2) False Cons show ?thesis by simp
    qed
  qed
qed

lemma money_rule_induct [case_names Nil copy hit]:
  assumes "P []"
    and "\<And>c cs. \<not> money_hit (c # cs) \<Longrightarrow> P cs \<Longrightarrow> P (c # cs)"
    and "\<And>ws d rest. money_shape ws d \<Longrightarrow> P rest \<Longrightarrow> P (''R$'' @ ws @ d # rest)"
  shows "P s"
proof (induction s rule: length_induct)
  case (1 s)
  show ?case
  proof (cases "money_hit s")
    case True
    then obtain ws d rest where s: "s = ''R$'' @ ws @ d # rest" and sh: "money_shape ws d"
      by (auto simp: money_hit_def)
    then have "length rest < length s" by simp
    with 1 have "P rest" by blast
    from assms(3)[OF sh this] s show ?thesis by simp
  next
    case False
    show ?thesis
    proof (cases s)
      case Nil
      with assms(1) show ?thesis by simp
    next
      case (Cons c cs)
      with 1 have "P cs" by simp
      with assms(2) False Cons show ?thesis by simp
    qed
  qed
qed

subsection \<open>Texts that a spacing rule leaves unchanged\<close>

text \<open>
  A text is normal for a rule when every place where the pattern of the rule matches
  already has the single space that the rule writes.
\<close>

lemma run_unique:
  "list_all P a \<Longrightarrow> list_all P b \<Longrightarrow> \<not> P x \<Longrightarrow> \<not> P y \<Longrightarrow> a @ x # u = b @ y # v \<Longrightarrow>
     a = b \<and> x = y \<and> u = v"
proof (induction a arbitrary: b)
  case Nil
  then show ?case by (cases b) auto
next
  case (Cons c a)
  then show ?case by (cases b) auto
qed

definition list_good :: "string \<Rightarrow> bool" where
  "list_good v = (\<forall>ds ws X rest. v = ds @ CHR ''.'' # ws @ X # rest \<and> list_shape ds ws X \<longrightarrow> ws = '' '')"

definition list_normal :: "string \<Rightarrow> bool" where
  "list_normal s = (\<forall>i. list_good (drop i s))"

definition money_good :: "string \<Rightarrow> bool" where
  "money_good v = (\<forall>ws d rest. v = ''R$'' @ ws @ d # rest \<and> money_shape ws d \<longrightarrow> ws = '' '')"

definition money_normal :: "string \<Rightarrow> bool" where
  "money_normal s = (\<forall>i. money_good (drop i s))"

lemma list_good_Nil: "list_good []" by (simp add: list_good_def)
lemma money_good_Nil: "money_good []" by (simp add: money_good_def)

lemma list_normal_Nil: "list_normal []" by (simp add: list_normal_def list_good_Nil)
lemma money_normal_Nil: "money_normal []" by (simp add: money_normal_def money_good_Nil)

lemma list_normal_Cons: "list_normal (c # s) \<longleftrightarrow> list_good (c # s) \<and> list_normal s"
proof
  assume n: "list_normal (c # s)"
  have "list_good (c # s)" using n[unfolded list_normal_def, rule_format, of 0] by simp
  moreover have "list_normal s" unfolding list_normal_def
  proof
    fix i show "list_good (drop i s)" using n[unfolded list_normal_def, rule_format, of "Suc i"] by simp
  qed
  ultimately show "list_good (c # s) \<and> list_normal s" ..
next
  assume a: "list_good (c # s) \<and> list_normal s"
  show "list_normal (c # s)" unfolding list_normal_def
  proof
    fix i show "list_good (drop i (c # s))"
      using a by (cases i) (auto simp: list_normal_def)
  qed
qed

lemma money_normal_Cons: "money_normal (c # s) \<longleftrightarrow> money_good (c # s) \<and> money_normal s"
proof
  assume n: "money_normal (c # s)"
  have "money_good (c # s)" using n[unfolded money_normal_def, rule_format, of 0] by simp
  moreover have "money_normal s" unfolding money_normal_def
  proof
    fix i show "money_good (drop i s)" using n[unfolded money_normal_def, rule_format, of "Suc i"] by simp
  qed
  ultimately show "money_good (c # s) \<and> money_normal s" ..
next
  assume a: "money_good (c # s) \<and> money_normal s"
  show "money_normal (c # s)" unfolding money_normal_def
  proof
    fix i show "money_good (drop i (c # s))"
      using a by (cases i) (auto simp: money_normal_def)
  qed
qed

lemma list_normal_append: "list_normal (a @ s) \<Longrightarrow> list_normal s"
  by (induction a) (auto simp: list_normal_Cons)

lemma money_normal_append: "money_normal (a @ s) \<Longrightarrow> money_normal s"
  by (induction a) (auto simp: money_normal_Cons)

lemma list_good_nondigit: "\<not> digit_ch c \<Longrightarrow> list_good (c # s)"
proof -
  assume c: "\<not> digit_ch c"
  { fix ds ws X rest
    assume e: "c # s = ds @ CHR ''.'' # ws @ X # rest" and sh: "list_shape ds ws X"
    from sh obtain d ds' where "ds = d # ds'" "digit_ch d" by (cases ds) (auto simp: list_shape_def)
    with e c have False by simp }
  then show ?thesis unfolding list_good_def by blast
qed

lemma money_good_nonR: "c \<noteq> CHR ''R'' \<Longrightarrow> money_good (c # s)"
  by (auto simp: money_good_def)

lemma list_hit_digit: "list_hit (c # cs) \<Longrightarrow> digit_ch c"
proof -
  assume "list_hit (c # cs)"
  then obtain ds ws X rest where e: "c # cs = ds @ CHR ''.'' # ws @ X # rest" and sh: "list_shape ds ws X"
    by (auto simp: list_hit_def)
  from sh obtain d ds' where "ds = d # ds'" "digit_ch d" by (cases ds) (auto simp: list_shape_def)
  with e show "digit_ch c" by simp
qed

lemma money_hit_R: "money_hit (c # cs) \<Longrightarrow> c = CHR ''R''"
  by (auto simp: money_hit_def)

lemma list_rule_nondigit: "\<not> digit_ch c \<Longrightarrow> list_rule (c # cs) = c # list_rule cs"
  using list_hit_digit list_rule_copy by blast

lemma money_rule_nonR: "c \<noteq> CHR ''R'' \<Longrightarrow> money_rule (c # cs) = c # money_rule cs"
  using money_hit_R money_rule_copy by blast

lemma list_rule_head: "list_rule (c # cs) = x # z \<Longrightarrow> x = c"
proof (cases "list_hit (c # cs)")
  case True
  assume r: "list_rule (c # cs) = x # z"
  from True obtain ds ws X rest where e: "c # cs = ds @ CHR ''.'' # ws @ X # rest" and sh: "list_shape ds ws X"
    by (auto simp: list_hit_def)
  from sh obtain d ds' where d: "ds = d # ds'" by (cases ds) (auto simp: list_shape_def)
  from list_rule_hit[OF sh, of rest] e r d show ?thesis by simp
next
  case False
  assume "list_rule (c # cs) = x # z"
  with list_rule_copy[OF False] show ?thesis by simp
qed

lemma money_rule_head: "money_rule (c # cs) = x # z \<Longrightarrow> x = c"
proof (cases "money_hit (c # cs)")
  case True
  assume r: "money_rule (c # cs) = x # z"
  from True obtain ws d rest where e: "c # cs = ''R$'' @ ws @ d # rest" and sh: "money_shape ws d"
    by (auto simp: money_hit_def)
  from money_rule_hit[OF sh, of rest] e r show ?thesis by simp
next
  case False
  assume "money_rule (c # cs) = x # z"
  with money_rule_copy[OF False] show ?thesis by simp
qed

lemma list_rule_reflect_nondigits:
  "list_all (\<lambda>c. \<not> digit_ch c) w \<Longrightarrow> list_rule s = w @ z \<Longrightarrow> \<exists>s2. s = w @ s2 \<and> list_rule s2 = z"
proof (induction w arbitrary: s)
  case Nil
  then show ?case by simp
next
  case (Cons a w)
  from Cons.prems(2) have "s \<noteq> []" using list_rule_Nil by auto
  then obtain c cs where s: "s = c # cs" by (cases s) auto
  with Cons.prems(2) list_rule_head[of c cs a "w @ z"] have ca: "c = a" by simp
  with Cons.prems(1) have "\<not> digit_ch c" by simp
  from list_rule_nondigit[OF this, of cs] Cons.prems(2) s ca have "list_rule cs = w @ z" by simp
  with Cons.IH Cons.prems(1) obtain s2 where "cs = w @ s2" "list_rule s2 = z" by auto
  with s ca show ?case by simp
qed

lemma money_rule_reflect_nonR:
  "list_all (\<lambda>c. c \<noteq> CHR ''R'') w \<Longrightarrow> money_rule s = w @ z \<Longrightarrow> \<exists>s2. s = w @ s2 \<and> money_rule s2 = z"
proof (induction w arbitrary: s)
  case Nil
  then show ?case by simp
next
  case (Cons a w)
  from Cons.prems(2) have "s \<noteq> []" using money_rule_Nil by auto
  then obtain c cs where s: "s = c # cs" by (cases s) auto
  with Cons.prems(2) money_rule_head[of c cs a "w @ z"] have ca: "c = a" by simp
  with Cons.prems(1) have "c \<noteq> CHR ''R''" by simp
  from money_rule_nonR[OF this, of cs] Cons.prems(2) s ca have "money_rule cs = w @ z" by simp
  with Cons.IH Cons.prems(1) obtain s2 where "cs = w @ s2" "money_rule s2 = z" by auto
  with s ca show ?case by simp
qed

lemma list_rule_reflect_shape:
  assumes "list_all digit_ch ds0" and "ws \<noteq> []" and "list_all space_ch ws" and "upper_ch X"
    and "list_rule s = ds0 @ CHR ''.'' # ws @ X # y"
  shows "\<exists>ws' y'. s = ds0 @ CHR ''.'' # ws' @ X # y' \<and> ws' \<noteq> [] \<and> list_all space_ch ws'"
  using assms(1,5)
proof (induction ds0 arbitrary: s)
  case Nil
  have nd: "list_all (\<lambda>c. \<not> digit_ch c) (CHR ''.'' # ws @ [X])"
    using assms(3,4) by (auto simp: list_all_iff dest: class_disjoint)
  from Nil.prems(2) have "list_rule s = (CHR ''.'' # ws @ [X]) @ y" by simp
  from list_rule_reflect_nondigits[OF nd this] obtain s2 where "s = (CHR ''.'' # ws @ [X]) @ s2" by blast
  with assms(2,3) show ?case by auto
next
  case (Cons d ds3)
  from Cons.prems(2) have "s \<noteq> []" using list_rule_Nil by auto
  then obtain c cs where s: "s = c # cs" by (cases s) auto
  show ?case
  proof (cases "list_hit s")
    case True
    then obtain ds1 ws1 X1 rest1 where e: "s = ds1 @ CHR ''.'' # ws1 @ X1 # rest1"
      and sh: "list_shape ds1 ws1 X1" by (auto simp: list_hit_def)
    from list_rule_hit[OF sh, of rest1] e Cons.prems(2)
    have eq: "ds1 @ CHR ''.'' # (CHR '' '' # X1 # list_rule rest1) = (d # ds3) @ CHR ''.'' # (ws @ X # y)"
      by simp
    from sh have d1: "list_all digit_ch ds1" by (simp add: list_shape_def)
    have nd: "\<not> digit_ch CHR ''.''" using class_disjoint(4) by blast
    from run_unique[OF d1 Cons.prems(1) nd nd eq]
    have ds: "ds1 = d # ds3" and tl: "CHR '' '' # X1 # list_rule rest1 = ws @ X # y" by simp_all
    have sp1: "list_all space_ch '' ''" using space_ch_space by simp
    from sh have "\<not> space_ch X1" by (auto simp: list_shape_def dest: class_disjoint)
    moreover have "\<not> space_ch X" using assms(4) by (auto dest: class_disjoint)
    moreover from tl have "'' '' @ X1 # list_rule rest1 = ws @ X # y" by simp
    ultimately have "X1 = X" using run_unique[OF sp1 assms(3)] by blast
    with e ds sh show ?thesis by (auto simp: list_shape_def)
  next
    case False
    with s list_rule_copy have "list_rule s = c # list_rule cs" by simp
    with Cons.prems(2) have c: "c = d" and r: "list_rule cs = ds3 @ CHR ''.'' # ws @ X # y" by simp_all
    from Cons.prems(1) have "list_all digit_ch ds3" by simp
    from Cons.IH[OF this r] obtain ws' y' where
      "cs = ds3 @ CHR ''.'' # ws' @ X # y'" "ws' \<noteq> []" "list_all space_ch ws'" by blast
    with s c show ?thesis by auto
  qed
qed

lemma list_normal_hit_out:
  assumes "list_all digit_ch ds" and "upper_ch X" and "list_normal z"
  shows "list_normal (ds @ CHR ''.'' # CHR '' '' # X # z)"
  using assms(1)
proof (induction ds)
  case Nil
  have "\<not> digit_ch CHR ''.''" "\<not> digit_ch CHR '' ''" "\<not> digit_ch X"
    using class_disjoint assms(2) by blast+
  with assms(3) show ?case by (simp add: list_normal_Cons list_good_nondigit)
next
  case (Cons d ds)
  have "list_good ((d # ds) @ CHR ''.'' # CHR '' '' # X # z)"
    unfolding list_good_def
  proof (intro allI impI)
    fix ds1 ws1 X1 rest1
    assume a: "(d # ds) @ CHR ''.'' # CHR '' '' # X # z = ds1 @ CHR ''.'' # ws1 @ X1 # rest1 \<and> list_shape ds1 ws1 X1"
    then have d1: "list_all digit_ch ds1" and w1: "list_all space_ch ws1" and x1: "\<not> space_ch X1"
      by (auto simp: list_shape_def dest: class_disjoint)
    have nd: "\<not> digit_ch CHR ''.''" using class_disjoint(4) by blast
    from a have "ds1 @ CHR ''.'' # (ws1 @ X1 # rest1) = (d # ds) @ CHR ''.'' # ('' '' @ X # z)"
      by simp
    from run_unique[OF d1 Cons.prems nd nd this]
    have "ws1 @ X1 # rest1 = '' '' @ X # z" by simp
    moreover have "list_all space_ch '' ''" using space_ch_space by simp
    moreover have "\<not> space_ch X" using assms(2) by (auto dest: class_disjoint)
    ultimately show "ws1 = '' ''" using run_unique[OF w1 _ x1] by blast
  qed
  moreover from Cons have "list_normal (ds @ CHR ''.'' # CHR '' '' # X # z)" by simp
  ultimately show ?case by (simp add: list_normal_Cons)
qed

lemma list_normal_list_rule: "list_normal (list_rule t)"
proof (induction t rule: list_rule_induct)
  case Nil
  then show ?case by (simp add: list_rule_Nil list_normal_Nil)
next
  case (copy c cs)
  have "list_good (c # list_rule cs)" unfolding list_good_def
  proof (intro allI impI)
    fix ds ws X rest
    assume a: "c # list_rule cs = ds @ CHR ''.'' # ws @ X # rest \<and> list_shape ds ws X"
    then obtain ds' where ds: "ds = c # ds'" and r: "list_rule cs = ds' @ CHR ''.'' # ws @ X # rest"
      by (cases ds) (auto simp: list_shape_def)
    from a ds have sh: "list_all digit_ch ds'" "ws \<noteq> []" "list_all space_ch ws" "upper_ch X" "digit_ch c"
      by (auto simp: list_shape_def)
    from list_rule_reflect_shape[OF sh(1-4) r] obtain ws' y' where
      "cs = ds' @ CHR ''.'' # ws' @ X # y'" "ws' \<noteq> []" "list_all space_ch ws'" by blast
    with sh ds have "list_hit (c # cs)"
      unfolding list_hit_def list_shape_def
      by (intro exI[of _ "c # ds'"] exI[of _ ws'] exI[of _ X] exI[of _ y']) simp
    with copy show "ws = '' ''" by simp
  qed
  with copy show ?case by (simp add: list_rule_copy list_normal_Cons)
next
  case (hit ds ws X rest)
  then have "list_all digit_ch ds" "upper_ch X" by (simp_all add: list_shape_def)
  from list_normal_hit_out[OF this hit(2)] list_rule_hit[OF hit(1), of rest] show ?case by simp
qed

lemma list_rule_fix: "list_normal s \<Longrightarrow> list_rule s = s"
proof (induction s rule: list_rule_induct)
  case Nil
  then show ?case by (simp add: list_rule_Nil)
next
  case (copy c cs)
  then show ?case by (simp add: list_rule_copy list_normal_Cons)
next
  case (hit ds ws X rest)
  from hit(3) have "list_good (ds @ CHR ''.'' # ws @ X # rest)"
    unfolding list_normal_def by (metis drop0)
  with hit(1) have ws: "ws = '' ''" unfolding list_good_def by blast
  have "list_normal rest" using list_normal_append[of "ds @ CHR ''.'' # ws @ [X]" rest] hit(3) by simp
  with hit(2) have "list_rule rest = rest" by simp
  with list_rule_hit[OF hit(1), of rest] ws show ?case by simp
qed

lemma money_normal_hit_out:
  assumes "digit_ch d" and "money_normal z"
  shows "money_normal (''R$ '' @ d # z)"
proof -
  have "money_good (''R$'' @ '' '' @ d # z)" unfolding money_good_def
  proof (intro allI impI)
    fix ws1 d1 rest1
    assume a: "''R$'' @ '' '' @ d # z = ''R$'' @ ws1 @ d1 # rest1 \<and> money_shape ws1 d1"
    then have w1: "list_all space_ch ws1" and x1: "\<not> space_ch d1"
      by (auto simp: money_shape_def dest: class_disjoint)
    from a have "ws1 @ d1 # rest1 = '' '' @ d # z" by simp
    moreover have "list_all space_ch '' ''" using space_ch_space by simp
    moreover have "\<not> space_ch d" using assms(1) by (auto dest: class_disjoint)
    ultimately show "ws1 = '' ''" using run_unique[OF w1 _ x1] by blast
  qed
  moreover have "d \<noteq> CHR ''R''" using assms(1) by (auto dest: class_disjoint)
  ultimately show ?thesis using assms(2) by (simp add: money_normal_Cons money_good_nonR)
qed

lemma money_normal_money_rule: "money_normal (money_rule t)"
proof (induction t rule: money_rule_induct)
  case Nil
  then show ?case by (simp add: money_rule_Nil money_normal_Nil)
next
  case (copy c cs)
  have "money_good (c # money_rule cs)" unfolding money_good_def
  proof (intro allI impI)
    fix ws d rest
    assume a: "c # money_rule cs = ''R$'' @ ws @ d # rest \<and> money_shape ws d"
    then have c: "c = CHR ''R''" and r: "money_rule cs = (CHR ''$'' # ws @ [d]) @ rest"
      and sh: "list_all space_ch ws" "digit_ch d" by (auto simp: money_shape_def)
    have "list_all (\<lambda>c. c \<noteq> CHR ''R'') (CHR ''$'' # ws @ [d])"
      using sh by (auto simp: list_all_iff dest: class_disjoint)
    from money_rule_reflect_nonR[OF this r] obtain s2 where "cs = (CHR ''$'' # ws @ [d]) @ s2" by blast
    with c sh have "money_hit (c # cs)"
      unfolding money_hit_def money_shape_def
      by (intro exI[of _ ws] exI[of _ d] exI[of _ s2]) simp
    with copy show "ws = '' ''" by simp
  qed
  with copy show ?case by (simp add: money_rule_copy money_normal_Cons)
next
  case (hit ws d rest)
  then have "digit_ch d" by (simp add: money_shape_def)
  from money_normal_hit_out[OF this hit(2)] money_rule_hit[OF hit(1), of rest] show ?case by simp
qed

lemma money_rule_fix: "money_normal s \<Longrightarrow> money_rule s = s"
proof (induction s rule: money_rule_induct)
  case Nil
  then show ?case by (simp add: money_rule_Nil)
next
  case (copy c cs)
  then show ?case by (simp add: money_rule_copy money_normal_Cons)
next
  case (hit ws d rest)
  from hit(3) have "money_good (''R$'' @ ws @ d # rest)"
    unfolding money_normal_def by (metis drop0)
  with hit(1) have ws: "ws = '' ''" unfolding money_good_def by blast
  have "money_normal rest" using money_normal_append[of "''R$'' @ ws @ [d]" rest] hit(3) by simp
  with hit(2) have "money_rule rest = rest" by simp
  with money_rule_hit[OF hit(1), of rest] ws show ?case by simp
qed

subsection \<open>What a spacing rule may change\<close>

text \<open>
  Both rules only replace white space that follows one character, the point or the
  dollar sign, by a single space. A block of text without that character, and not
  starting with a space, is in the output only if it was in the input.
\<close>

inductive edits :: "char \<Rightarrow> string \<Rightarrow> string \<Rightarrow> bool" for b :: char where
  nil: "edits b [] []"
| copy: "edits b s s' \<Longrightarrow> edits b (c # s) (c # s')"
| squeeze: "edits b s s' \<Longrightarrow> list_all space_ch ws \<Longrightarrow> edits b (b # ws @ s) (b # CHR '' '' # s')"

lemma edits_prepend: "edits b s s' \<Longrightarrow> edits b (a @ s) (a @ s')"
  by (induction a) (auto intro: edits.copy)

lemma edits_prefix:
  "edits b s s' \<Longrightarrow> s' = m @ y' \<Longrightarrow> b \<notin> set m \<Longrightarrow> \<exists>y. s = m @ y"
proof (induction arbitrary: m y' rule: edits.induct)
  case nil
  then show ?case by simp
next
  case (copy s s' c)
  show ?case
  proof (cases m)
    case Nil
    then show ?thesis by simp
  next
    case (Cons a m')
    with copy.prems have "a = c" "s' = m' @ y'" "b \<notin> set m'" by simp_all
    with copy.IH[of m' y'] Cons show ?thesis by auto
  qed
next
  case (squeeze s s' ws)
  then show ?case by (cases m) auto
qed

lemma edits_block:
  "edits b s s' \<Longrightarrow> drop i s' = m @ y' \<Longrightarrow> b \<notin> set m \<Longrightarrow> m \<noteq> [] \<Longrightarrow> hd m \<noteq> CHR '' '' \<Longrightarrow>
     \<exists>j y. drop j s = m @ y"
proof (induction arbitrary: i rule: edits.induct)
  case nil
  then show ?case by simp
next
  case (copy s s' c)
  show ?case
  proof (cases i)
    case 0
    with copy.prems have "c # s' = m @ y'" by simp
    from edits_prefix[OF edits.copy[OF copy.hyps] this copy.prems(2)]
    obtain y where "c # s = m @ y" by blast
    then have "drop 0 (c # s) = m @ y" by simp
    then show ?thesis by blast
  next
    case (Suc i')
    with copy.prems have "drop i' s' = m @ y'" by simp
    from copy.IH[OF this copy.prems(2,3,4)] obtain j y where "drop j s = m @ y" by blast
    then have "drop (Suc j) (c # s) = m @ y" by simp
    then show ?thesis by blast
  qed
next
  case (squeeze s s' ws)
  show ?case
  proof (cases i)
    case 0
    with squeeze.prems have "b # CHR '' '' # s' = m @ y'" by simp
    with squeeze.prems(2,3) show ?thesis by (cases m) auto
  next
    case (Suc i1)
    show ?thesis
    proof (cases i1)
      case 0
      with Suc squeeze.prems have "CHR '' '' # s' = m @ y'" by simp
      with squeeze.prems(3,4) show ?thesis by (cases m) auto
    next
      case (Suc i')
      with \<open>i = Suc i1\<close> squeeze.prems have "drop i' s' = m @ y'" by simp
      from squeeze.IH[OF this squeeze.prems(2,3,4)] obtain j y where "drop j s = m @ y" by blast
      then have "drop (Suc (length ws + j)) (b # ws @ s) = m @ y" by simp
      then show ?thesis by blast
    qed
  qed
qed

lemma edits_list_rule: "edits CHR ''.'' t (list_rule t)"
proof (induction t rule: list_rule_induct)
  case Nil
  then show ?case by (simp add: list_rule_Nil edits.nil)
next
  case (copy c cs)
  then show ?case by (simp add: list_rule_copy edits.copy)
next
  case (hit ds ws X rest)
  then have ws: "list_all space_ch ws" by (simp add: list_shape_def)
  have "edits CHR ''.'' (X # rest) (X # list_rule rest)" using hit(2) by (rule edits.copy)
  from edits.squeeze[OF this ws]
  have "edits CHR ''.'' (CHR ''.'' # ws @ X # rest) (CHR ''.'' # CHR '' '' # X # list_rule rest)" .
  from edits_prepend[OF this, of ds] list_rule_hit[OF hit(1), of rest] show ?case by simp
qed

lemma edits_money_rule: "edits CHR ''$'' t (money_rule t)"
proof (induction t rule: money_rule_induct)
  case Nil
  then show ?case by (simp add: money_rule_Nil edits.nil)
next
  case (copy c cs)
  then show ?case by (simp add: money_rule_copy edits.copy)
next
  case (hit ws d rest)
  then have ws: "list_all space_ch ws" by (simp add: money_shape_def)
  have "edits CHR ''$'' (d # rest) (d # money_rule rest)" using hit(2) by (rule edits.copy)
  from edits.squeeze[OF this ws]
  have "edits CHR ''$'' (CHR ''$'' # ws @ d # rest) (CHR ''$'' # CHR '' '' # d # money_rule rest)" .
  from edits.copy[OF this, of "CHR ''R''"] money_rule_hit[OF hit(1), of rest] show ?case by simp
qed

lemma list_normal_money_rule: "list_normal u \<Longrightarrow> list_normal (money_rule u)"
  unfolding list_normal_def
proof
  fix i
  assume n: "\<forall>i. list_good (drop i u)"
  show "list_good (drop i (money_rule u))" unfolding list_good_def
  proof (intro allI impI)
    fix ds ws X rest
    assume a: "drop i (money_rule u) = ds @ CHR ''.'' # ws @ X # rest \<and> list_shape ds ws X"
    let ?m = "ds @ CHR ''.'' # ws @ [X]"
    from a have sh: "list_shape ds ws X" and d: "drop i (money_rule u) = ?m @ rest" by simp_all
    from sh have "CHR ''$'' \<notin> set ?m"
      by (auto simp: list_shape_def list_all_iff dest: class_disjoint)
    moreover from sh have "?m \<noteq> []" "hd ?m \<noteq> CHR '' ''"
      by (cases ds; auto simp: list_shape_def dest: class_disjoint)+
    ultimately obtain j y where "drop j u = ?m @ y"
      using edits_block[OF edits_money_rule d] by blast
    then have "drop j u = ds @ CHR ''.'' # ws @ X # y" by simp
    with n sh show "ws = '' ''" unfolding list_good_def by blast
  qed
qed

lemma list_rule_money_rule_list_rule: "list_rule (money_rule (list_rule t)) = money_rule (list_rule t)"
  by (intro list_rule_fix list_normal_money_rule list_normal_list_rule)

lemma money_rule_money_rule: "money_rule (money_rule u) = money_rule u"
  by (intro money_rule_fix money_normal_money_rule)

lemma str_contains_drop: "str_contains w s \<longleftrightarrow> (\<exists>i y. drop i s = w @ y)"
proof
  assume "str_contains w s"
  then obtain u v where "s = u @ w @ v" unfolding str_contains_iff by blast
  then have "drop (length u) s = w @ v" by simp
  then show "\<exists>i y. drop i s = w @ y" by blast
next
  assume "\<exists>i y. drop i s = w @ y"
  then obtain i y where "drop i s = w @ y" by blast
  then have "s = take i s @ w @ y" by (metis append_take_drop_id)
  then show "str_contains w s" unfolding str_contains_iff by blast
qed

lemma edits_contains:
  assumes "edits b s s'" and "str_contains w s'" and "b \<notin> set w" and "w \<noteq> []"
    and "hd w \<noteq> CHR '' ''"
  shows "str_contains w s"
proof -
  from assms(2) obtain i y' where "drop i s' = w @ y'" unfolding str_contains_drop by blast
  from edits_block[OF assms(1) this assms(3,4,5)] show ?thesis unfolding str_contains_drop .
qed

subsection \<open>The section headers and key labels\<close>

text \<open>
  The literal texts at the head of the first six structuring rules. A rule whose literal
  does not occur in the text leaves the text unchanged.
\<close>

definition rotulos :: "string list" where
  "rotulos = [PRESTADOR, TOMADOR, DISCRIMINACAO, Numero_da_Nota, Data_e_Hora, Codigo_de_Verificacao]"

definition starts_with :: "string \<Rightarrow> item list \<Rightarrow> bool" where
  "starts_with w p = (\<exists>q. p = Open 1 # lits w @ q)"

lemma estruturas_labels:
  "starts_with PRESTADOR (fst (estruturas ! 0))"
  "starts_with TOMADOR (fst (estruturas ! 1))"
  "starts_with DISCRIMINACAO (fst (estruturas ! 2))"
  "starts_with Numero_da_Nota (fst (estruturas ! 3))"
  "starts_with Data_e_Hora (fst (estruturas ! 4))"
  "starts_with Codigo_de_Verificacao (fst (estruturas ! 5))"
  by (simp_all add: starts_with_def estruturas_def group_def)

lemma re_search_none:
  "(\<And>i. re_match ic p False (drop i s) 0 (\<lambda>k. 0) Map.empty = None) \<Longrightarrow>
     re_search ic p False s = None"
proof (induction s)
  case Nil
  from Nil[of 0] show ?case by simp
next
  case (Cons c cs)
  have "\<And>i. re_match ic p False (drop i cs) 0 (\<lambda>k. 0) Map.empty = None"
    using Cons.prems[of "Suc _"] by simp
  from Cons.IH[OF this] Cons.prems[of 0] show ?case by simp
qed

lemma rule_absent:
  assumes "starts_with w (fst regra)" and "\<not> str_contains w s"
  shows "aplicar False regra s = s"
proof -
  from assms(1) obtain q where p: "fst regra = Open 1 # lits w @ q"
    unfolding starts_with_def by blast
  have "re_match False (fst regra) False (drop i s) 0 (\<lambda>k. 0) Map.empty = None" for i
  proof -
    have "\<not> prefix w (drop i s)"
      using assms(2) unfolding str_contains_drop by (auto simp: prefix_def)
    then show ?thesis by (simp add: p re_match_Open re_match_lits)
  qed
  then have "re_search False (fst regra) False s = None" by (rule re_search_none)
  then show ?thesis by (simp add: aplicar_def re_sub_def re_sub_from_none)
qed

lemma estruturar_unfold:
  "estruturar_texto s =
     money_rule (list_rule (aplicar False (estruturas ! 5) (aplicar False (estruturas ! 4)
       (aplicar False (estruturas ! 3) (aplicar False (estruturas ! 2)
         (aplicar False (estruturas ! 1) (aplicar False (estruturas ! 0) s)))))))"
  by (simp add: estruturar_texto_def aplicar_regras_def estruturas_def list_rule_def money_rule_def)

lemma estruturar_no_labels:
  assumes "\<forall>w\<in>set rotulos. \<not> str_contains w s"
  shows "estruturar_texto s = money_rule (list_rule s)"
proof -
  have a0: "aplicar False (estruturas ! 0) s = s"
    by (rule rule_absent[OF estruturas_labels(1)]) (use assms in \<open>simp add: rotulos_def\<close>)
  have a1: "aplicar False (estruturas ! 1) s = s"
    by (rule rule_absent[OF estruturas_labels(2)]) (use assms in \<open>simp add: rotulos_def\<close>)
  have a2: "aplicar False (estruturas ! 2) s = s"
    by (rule rule_absent[OF estruturas_labels(3)]) (use assms in \<open>simp add: rotulos_def\<close>)
  have a3: "aplicar False (estruturas ! 3) s = s"
    by (rule rule_absent[OF estruturas_labels(4)]) (use assms in \<open>simp add: rotulos_def\<close>)
  have a4: "aplicar False (estruturas ! 4) s = s"
    by (rule rule_absent[OF estruturas_labels(5)]) (use assms in \<open>simp add: rotulos_def\<close>)
  have a5: "aplicar False (estruturas ! 5) s = s"
    by (rule rule_absent[OF estruturas_labels(6)]) (use assms in \<open>simp add: rotulos_def\<close>)
  show ?thesis by (simp only: estruturar_unfold a0 a1 a2 a3 a4 a5)
qed

lemma rotulos_chars:
  assumes "w \<in> set rotulos"
  shows "CHR ''.'' \<notin> set w" "CHR ''$'' \<notin> set w" "w \<noteq> []" "hd w \<noteq> CHR '' ''"
  using assms by (auto simp: rotulos_def label_defs letter_defs)

lemma no_labels_list_rule:
  assumes "\<forall>w\<in>set rotulos. \<not> str_contains w s"
  shows "\<forall>w\<in>set rotulos. \<not> str_contains w (list_rule s)"
  using assms edits_contains[OF edits_list_rule] rotulos_chars by blast

lemma no_labels_money_rule:
  assumes "\<forall>w\<in>set rotulos. \<not> str_contains w s"
  shows "\<forall>w\<in>set rotulos. \<not> str_contains w (money_rule s)"
  using assms edits_contains[OF edits_money_rule] rotulos_chars by blast

subsection \<open>Literal occurrences and the validator patterns\<close>

text \<open>
  A pattern that matches at the head of a text still matches when more text follows, so
  a pattern that matches a literal is found in every text that holds the literal. This
  gives the validator on the literals \<^verbatim>\<open>NFS-e\<close>, \<^verbatim>\<open>49.621.411/0001-93\<close> and
  \<^verbatim>\<open>R$ 750,00\<close>.
\<close>

lemma try_down_some:
  "lo \<le> k \<Longrightarrow> k \<le> lo + d \<Longrightarrow> f k \<noteq> None \<Longrightarrow> try_down f lo d \<noteq> None"
proof (induction d)
  case 0
  then have "k = lo" by simp
  with 0 show ?case by simp
next
  case (Suc d)
  show ?case
  proof (cases "f (lo + Suc d)")
    case (Some a)
    then show ?thesis by simp
  next
    case None
    with Suc.prems have "k \<noteq> lo + Suc d" by auto
    with Suc.prems have "k \<le> lo + d" by simp
    from Suc.IH[OF Suc.prems(1) this Suc.prems(3)] None show ?thesis by simp
  qed
qed

lemma run_length_append_mono: "run_length ic c hi s \<le> run_length ic c hi (s @ y)"
proof -
  have "length (takeWhile (cls_ok ic c) s) \<le> length (takeWhile (cls_ok ic c) (s @ y))"
    using length_takeWhile_le[of "cls_ok ic c" s] by (simp add: takeWhile_append trans_le_add1)
  then show ?thesis
    by (cases hi) (auto simp: run_length_def min_le_iff_disj)
qed

lemma re_match_mono:
  "re_match ic p False s pos st caps \<noteq> None \<Longrightarrow> re_match ic p False (s @ y) pos' st' caps' \<noteq> None"
proof (induction p arbitrary: s pos st caps pos' st' caps')
  case Nil
  then show ?case by (simp add: re_match_Nil)
next
  case (Cons x r)
  show ?case
  proof (cases x)
    case (Rep c lo hi)
    from Cons.prems Rep obtain res where
      "re_match ic (Rep c lo hi # r) False s pos st caps = Some res" by auto
    from re_match_Rep_inv[OF this] obtain k where k: "lo \<le> k" "k \<le> run_length ic c hi s"
      and m: "re_match ic r False (drop k s) (pos + k) st caps = Some res" by blast
    from k(2) have kl: "k \<le> length s" using run_length_le[of ic c hi s] by simp
    from k(2) have k2: "k \<le> run_length ic c hi (s @ y)"
      using run_length_append_mono[of ic c hi s y] by simp
    from m have "re_match ic r False (drop k s @ y) (pos' + k) st' caps' \<noteq> None"
      by (intro Cons.IH[of "drop k s" "pos + k" st caps]) simp
    with kl have "re_match ic r False (drop k (s @ y)) (pos' + k) st' caps' \<noteq> None" by simp
    with k(1) k2 have "try_down (\<lambda>k. re_match ic r False (drop k (s @ y)) (pos' + k) st' caps') lo
              (run_length ic c hi (s @ y) - lo) \<noteq> None"
      by (intro try_down_some[of lo k]) simp_all
    with k(1) k2 Rep show ?thesis by (simp add: re_match_Rep)
  next
    case (Open k)
    with Cons show ?thesis by (simp add: re_match_Open)
  next
    case (Close k)
    with Cons show ?thesis by (simp add: re_match_Close)
  qed
qed

lemma re_found_at:
  "re_match ic p False (drop i s) 0 (\<lambda>k. 0) Map.empty \<noteq> None \<Longrightarrow> re_found ic p s"
  unfolding re_found_def
proof (induction s arbitrary: i)
  case Nil
  then show ?case by (auto split: option.splits)
next
  case (Cons c cs)
  show ?case
  proof (cases "re_match ic p False (c # cs) 0 (\<lambda>k. 0) Map.empty")
    case (Some a)
    then show ?thesis by (cases a) simp
  next
    case None
    with Cons.prems obtain i' where "i = Suc i'" by (cases i) auto
    with Cons.prems have "re_match ic p False (drop i' cs) 0 (\<lambda>k. 0) Map.empty \<noteq> None" by simp
    from Cons.IH[OF this] None show ?thesis by (auto split: option.splits)
  qed
qed

lemma re_found_literal:
  assumes "str_contains w s"
    and "re_match ic p False w 0 (\<lambda>k. 0) Map.empty \<noteq> None"
  shows "re_found ic p s"
proof -
  from assms(1) obtain i y where d: "drop i s = w @ y" unfolding str_contains_drop by blast
  from re_match_mono[OF assms(2), of y 0 "\<lambda>k. 0" Map.empty] d
  show ?thesis by (intro re_found_at[of ic p i s]) simp
qed

lemma literal_matches:
  "re_match True (hd (snd (campos ! 0))) False ''NFS-e'' 0 (\<lambda>k. 0) Map.empty \<noteq> None"
  "re_match True (hd (snd (campos ! 1))) False ''49.621.411/0001-93'' 0 (\<lambda>k. 0) Map.empty \<noteq> None"
  "re_match True (hd (snd (campos ! 2))) False ''R$ 750,00'' 0 (\<lambda>k. 0) Map.empty \<noteq> None"
  by code_simp+

lemma validar_campos_literals:
  assumes "str_contains ''NFS-e'' texto"
    and "str_contains ''49.621.411/0001-93'' texto"
    and "str_contains ''R$ 750,00'' texto"
  shows "validar_campos texto = []"
proof -
  have "re_found True (hd (snd (campos ! 0))) texto"
    "re_found True (hd (snd (campos ! 1))) texto"
    "re_found True (hd (snd (campos ! 2))) texto"
    using assms literal_matches by (auto intro: re_found_literal)
  then show ?thesis
    by (simp add: validar_campos_def campos_def)
qed

subsection \<open>A key field line\<close>











section \<open>The merge step\<close>

text \<open>
  C1 (as stated in the specification): with the primary text \<^verbatim>\<open>Total R$ XXXX\<close> and
  the secondary text \<^verbatim>\<open>garbage R$ 750,00\<close> the merge yields
  \<^verbatim>\<open>Total R$ 750,00\<close>. The program does not: the marker is replaced, so it
  disappears, and the text after it stays.
\<close>

theorem merge_ocr_example_counterexample:
  "merge_ocr ''Total R$ XXXX'' ''garbage R$ 750,00'' \<noteq> Inr ''Total R$ 750,00''"
  by (simp add: merge_ocr_def str_split_def str_replace_def)

text \<open>
  C1 (amended): with the primary text \<^verbatim>\<open>Total R$ XXXX\<close> and the secondary text
  \<^verbatim>\<open>garbage R$ 750,00\<close>, the merge replaces the marker by the segment after the last
  marker of the secondary text and yields \<^verbatim>\<open>Total  750,00 XXXX\<close>.
\<close>

theorem merge_ocr_example: "merge_ocr ''Total R$ XXXX'' ''garbage R$ 750,00'' = Inr ''Total  750,00 XXXX''"
  by (simp add: merge_ocr_def str_split_def str_replace_def)

text \<open>
  C5 (as stated in the specification): when the secondary text has no marker, the
  secondary text is appended after each marker of the primary text and the marker stays.
  The program removes the marker.
\<close>

theorem merge_ocr_no_marker_counterexample:
  "str_contains ''R$'' ''Total R$ 10'' \<and> \<not> str_contains ''R$'' ''750,00'' \<and>
   merge_ocr ''Total R$ 10'' ''750,00'' \<noteq> Inr (str_replace ''Total R$ 10'' ''R$'' (''R$'' @ ''750,00''))"
  by (simp add: merge_ocr_def str_split_def str_replace_def)

text \<open>
  C5 (amended): for every primary text and every secondary text that contains no marker
  \<^verbatim>\<open>R$\<close>, the merge yields the primary text with every marker replaced by the whole
  secondary text; the marker itself is not kept.
\<close>

theorem merge_ocr_no_marker:
  assumes "\<not> str_contains ''R$'' texto_numerico"
  shows "merge_ocr texto texto_numerico = Inr (str_replace texto ''R$'' texto_numerico)"
  using split_scan_none[of "''R$''" texto_numerico "[]"] assms
  by (simp add: merge_ocr_def str_split_def)

text \<open>An instance of C5 (amended).\<close>

theorem merge_ocr_no_marker_witness:
  "\<not> str_contains ''R$'' ''750,00'' \<and>
   merge_ocr ''Total R$ 10'' ''750,00'' = Inr ''Total 750,00 10''"
proof -
  have h: "\<not> str_contains ''R$'' ''750,00''" by simp
  from merge_ocr_no_marker[OF h, of "''Total R$ 10''"] h show ?thesis
    by (simp add: str_replace_def)
qed

section \<open>The order of the repair rules\<close>

text \<open>
  C8: there is a text on which two repair rules give different results in the two
  orders: the literal rule \<^verbatim>\<open>75000\<close> to \<^verbatim>\<open>750,00\<close> (the eighth) and the value
  format rule that inserts a point (the ninth), on the text \<^verbatim>\<open>75000\<close>.
\<close>

theorem correcoes_order_matters:
  "\<exists>texto. aplicar True (correcoes ! 8) (aplicar True (correcoes ! 7) texto)
            \<noteq> aplicar True (correcoes ! 7) (aplicar True (correcoes ! 8) texto)"
proof -
  have a: "aplicar True (correcoes ! 8) (aplicar True (correcoes ! 7) ''75000'') = ''750,00''"
    by code_simp
  have b: "aplicar True (correcoes ! 7) (aplicar True (correcoes ! 8) ''75000'') = ''750.00''"
    by code_simp
  show ?thesis by (rule exI[of _ "''75000''"]) (simp add: a b)
qed

section \<open>The field validator\<close>

text \<open>
  C6: for every text in which the document type, the provider identifier and the total
  value each have a pattern that is found, \<^verbatim>\<open>validar_campos\<close> returns the empty
  list.
\<close>

theorem validar_campos_complete:
  assumes "campo_presente ''NFS-e'' texto"
    and "campo_presente ''CNPJ Prestador'' texto"
    and "campo_presente ''Valor Total'' texto"
  shows "validar_campos texto = []"
  using assms by (simp add: validar_campos_filter)

text \<open>An instance of C6: the text \<^verbatim>\<open>NFS-e 49.621.411/0001-93 R$ 750,00\<close>.\<close>

theorem validar_campos_complete_witness:
  "campo_presente ''NFS-e'' ''NFS-e 49.621.411/0001-93 R$ 750,00'' \<and>
   campo_presente ''CNPJ Prestador'' ''NFS-e 49.621.411/0001-93 R$ 750,00'' \<and>
   campo_presente ''Valor Total'' ''NFS-e 49.621.411/0001-93 R$ 750,00'' \<and>
   validar_campos ''NFS-e 49.621.411/0001-93 R$ 750,00'' = []"
  using validar_campos_complete[OF presente_exemplo] presente_exemplo by simp

text \<open>
  C7: for every text in which the document type and the provider identifier are found
  and no pattern of the total value is, \<^verbatim>\<open>validar_campos\<close> returns exactly the
  list with the one name \<^verbatim>\<open>Valor Total\<close>.
\<close>

theorem validar_campos_valor_total_missing:
  assumes "campo_presente ''NFS-e'' texto"
    and "campo_presente ''CNPJ Prestador'' texto"
    and "\<not> campo_presente ''Valor Total'' texto"
  shows "validar_campos texto = [''Valor Total'']"
  using assms by (simp add: validar_campos_filter)

text \<open>An instance of C7: the text \<^verbatim>\<open>NFS-e 49.621.411/0001-93 R$ 75\<close>.\<close>

theorem validar_campos_valor_total_missing_witness:
  "campo_presente ''NFS-e'' ''NFS-e 49.621.411/0001-93 R$ 75'' \<and>
   campo_presente ''CNPJ Prestador'' ''NFS-e 49.621.411/0001-93 R$ 75'' \<and>
   \<not> campo_presente ''Valor Total'' ''NFS-e 49.621.411/0001-93 R$ 75'' \<and>
   validar_campos ''NFS-e 49.621.411/0001-93 R$ 75'' = [''Valor Total'']"
  using validar_campos_valor_total_missing[OF ausente_exemplo] ausente_exemplo by simp

section \<open>The orchestrator\<close>

text \<open>
  C3 (as stated in the specification): the page texts are joined by one blank line. The
  program joins them by one line feed, which ends a line and leaves no empty line
  between two pages.
\<close>

theorem processar_nfse_blank_line_counterexample:
  "map (processar_pagina (env_exemplo ocr_ab [Folha1, Folha2])) [Folha1, Folha2] = map Inr [''a'', ''b''] \<and>
   snd (processar_nfse (env_exemplo ocr_ab [Folha1, Folha2]) ''nota.pdf'') = ''a\<newline>b'' \<and>
   snd (processar_nfse (env_exemplo ocr_ab [Folha1, Folha2]) ''nota.pdf'')
     \<noteq> str_join ''\<newline>\<newline>'' [''a'', ''b'']"
proof -
  have "paginas (env_exemplo ocr_ab [Folha1, Folha2]) [Folha1, Folha2] [] = Inr [''a'', ''b'']"
    by (simp add: pagina_ab_1 pagina_ab_2)
  then have "snd (processar_nfse (env_exemplo ocr_ab [Folha1, Folha2]) ''nota.pdf'') = ''a\<newline>b''"
    by (simp add: processar_nfse_def env_exemplo_def Let_def)
  then show ?thesis by (simp add: pagina_ab_1 pagina_ab_2)
qed

text \<open>
  C3 (amended): when the rasteriser returns the pages and every page is processed, the
  text of the result is the structured page texts in page order, joined by exactly one
  line feed between consecutive pages, and the status is that of the validator run once
  on this text.
\<close>

theorem processar_nfse_concatena:
  assumes "convert_from_path env pdf_path = Inr imagens"
    and "map (processar_pagina env) imagens = map Inr textos"
  shows "processar_nfse env pdf_path =
           (status_de (validar_campos (str_join ''\<newline>'' textos)), str_join ''\<newline>'' textos)"
  using assms paginas_ok[OF assms(2), of "[]"]
  by (simp add: processar_nfse_def status_de_def Let_def)

text \<open>An instance of C3 (amended): the two pages that read \<^verbatim>\<open>a\<close> and \<^verbatim>\<open>b\<close>.\<close>

theorem processar_nfse_concatena_witness:
  "convert_from_path (env_exemplo ocr_ab [Folha1, Folha2]) ''nota.pdf'' = Inr [Folha1, Folha2] \<and>
   map (processar_pagina (env_exemplo ocr_ab [Folha1, Folha2])) [Folha1, Folha2] = map Inr [''a'', ''b''] \<and>
   processar_nfse (env_exemplo ocr_ab [Folha1, Folha2]) ''nota.pdf'' =
     (''ERRO: Campos faltantes - NFS-e, CNPJ Prestador, Valor Total'', ''a\<newline>b'')"
proof -
  have h1: "convert_from_path (env_exemplo ocr_ab [Folha1, Folha2]) ''nota.pdf'' = Inr [Folha1, Folha2]"
    by (simp add: env_exemplo_def)
  have h2: "map (processar_pagina (env_exemplo ocr_ab [Folha1, Folha2])) [Folha1, Folha2] = map Inr [''a'', ''b'']"
    by (simp add: pagina_ab_1 pagina_ab_2)
  from processar_nfse_concatena[OF h1 h2] h1 h2 show ?thesis
    by (simp add: validar_ab status_de_def)
qed

text \<open>
  C4 (as stated in the specification): when a component raises, the text of the result
  still holds the text of the pages processed before. The program returns the empty text:
  here the first page is processed and gives \<^verbatim>\<open>a\<close>, the engine raises on the second.
\<close>

theorem processar_nfse_partial_text_counterexample:
  "processar_pagina (env_exemplo ocr_falha [Folha1, Folha2]) Folha1 = Inr ''a'' \<and>
   componente_levanta (env_exemplo ocr_falha [Folha1, Folha2]) Folha2 ''boom'' \<and>
   \<not> str_contains ''a'' (snd (processar_nfse (env_exemplo ocr_falha [Folha1, Folha2]) ''nota.pdf''))"
proof -
  have "paginas (env_exemplo ocr_falha [Folha1, Folha2]) [Folha1, Folha2] [] = Inl (Error ''boom'')"
    by (simp add: pagina_falha_1 pagina_falha_2)
  then have "snd (processar_nfse (env_exemplo ocr_falha [Folha1, Folha2]) ''nota.pdf'') = []"
    by (simp add: processar_nfse_def env_exemplo_def)
  then show ?thesis by (simp add: pagina_falha_1 levanta_exemplo)
qed

text \<open>
  C4 (amended): when the rasteriser raises, or a component raises on a page (the colour
  conversion, one of the four preprocessing steps, or one of the two recognition passes)
  and no component has raised on the pages before it, the status is \<^verbatim>\<open>ERRO: \<close>
  followed by the message of that error and the text of the result is empty.
\<close>

theorem processar_nfse_erro:
  assumes "convert_from_path env pdf_path = Inl (Error msg) \<or>
           (\<exists>pre img post. convert_from_path env pdf_path = Inr (pre @ img # post) \<and>
              (\<forall>i\<in>set pre. \<forall>m. \<not> componente_levanta env i m) \<and>
              componente_levanta env img msg)"
  shows "processar_nfse env pdf_path = (''ERRO: '' @ msg, [])"
  using assms
proof
  assume "convert_from_path env pdf_path = Inl (Error msg)"
  then show ?thesis by (simp add: processar_nfse_def)
next
  assume "\<exists>pre img post. convert_from_path env pdf_path = Inr (pre @ img # post) \<and>
              (\<forall>i\<in>set pre. \<forall>m. \<not> componente_levanta env i m) \<and>
              componente_levanta env img msg"
  then obtain pre img post where c: "convert_from_path env pdf_path = Inr (pre @ img # post)"
    and ok: "\<forall>i\<in>set pre. \<forall>m. \<not> componente_levanta env i m"
    and bad: "componente_levanta env img msg"
    by blast
  have ok': "\<forall>i\<in>set pre. \<exists>t. processar_pagina env i = Inr t"
  proof
    fix i assume "i \<in> set pre"
    with ok have "\<forall>m. \<not> componente_levanta env i m" by simp
    then show "\<exists>t. processar_pagina env i = Inr t" by (rule pagina_sem_erro)
  qed
  from bad have bad': "processar_pagina env img = Inl (Error msg)"
    by (simp add: pagina_levanta)
  from paginas_falha[OF ok' bad', of post "[]"] c show ?thesis
    by (simp add: processar_nfse_def)
qed

text \<open>An instance of C4 (amended): the engine raises on the second page.\<close>

theorem processar_nfse_erro_witness:
  "convert_from_path (env_exemplo ocr_falha [Folha1, Folha2]) ''nota.pdf'' = Inr ([Folha1] @ Folha2 # []) \<and>
   processar_pagina (env_exemplo ocr_falha [Folha1, Folha2]) Folha1 = Inr ''a'' \<and>
   componente_levanta (env_exemplo ocr_falha [Folha1, Folha2]) Folha2 ''boom'' \<and>
   processar_nfse (env_exemplo ocr_falha [Folha1, Folha2]) ''nota.pdf'' = (''ERRO: boom'', [])"
proof -
  have h: "convert_from_path (env_exemplo ocr_falha [Folha1, Folha2]) ''nota.pdf'' = Inr ([Folha1] @ Folha2 # []) \<and>
     (\<forall>i\<in>set [Folha1]. \<forall>m. \<not> componente_levanta (env_exemplo ocr_falha [Folha1, Folha2]) i m) \<and>
     componente_levanta (env_exemplo ocr_falha [Folha1, Folha2]) Folha2 ''boom''"
    by (simp add: env_exemplo_convert levanta_exemplo)
  then have "processar_nfse (env_exemplo ocr_falha [Folha1, Folha2]) ''nota.pdf'' = (''ERRO: '' @ ''boom'', [])"
    by (intro processar_nfse_erro) blast
  with h show ?thesis by (simp add: pagina_falha_1)
qed

section \<open>The verification code rule\<close>

text \<open>
  C9: the fifth repair rule, which replaces each match of eight characters of
  \<^verbatim>\<open>[A-Z0-9]\<close> by the match with its spaces removed, leaves every text unchanged: a
  match of that class has no space.
\<close>

theorem codigo_rule_identity: "aplicar True (correcoes ! 4) texto = texto"
proof -
  let ?c = "Set [Rng CHR ''A'' CHR ''Z'', Rng CHR ''0'' CHR ''9'']"
  let ?f = "\<lambda>m. str_replace (whole m) '' '' []"
  have r: "correcoes ! 4 = (exactly ?c 8, Callable ?f)"
    by (simp add: correcoes_def)
  have "re_sub_from True (exactly ?c 8) (Callable ?f) False texto = texto"
  proof (rule re_sub_from_self)
    fix s adv b e caps
    assume "re_search True (exactly ?c 8) adv s = Some (b, e, caps)"
    from re_search_match[OF this] obtain adv' where
      "re_match True (exactly ?c 8) adv' (drop b s) 0 (\<lambda>k. 0) Map.empty = Some (e, caps)"
      by blast
    from re_match_exactly[OF this] have e: "e = 8"
      and ok: "\<forall>x\<in>set (take 8 (drop b s)). cls_ok True ?c x" by simp_all
    from ok alnum_not_space have "CHR '' '' \<notin> set (take 8 (drop b s))" by blast
    from replace_scan_space[OF this] e
    show "expand (Callable ?f) (mk_match (drop b s) e caps) = take e (drop b s)"
      by (simp add: mk_match_def str_replace_def)
  qed
  then show ?thesis by (simp add: aplicar_def re_sub_def r)
qed

section \<open>The key field rules of the structuring engine\<close>




section \<open>Idempotence of the structuring engine\<close>

text \<open>
  C2 (as stated in the specification): structuring twice gives the same as structuring
  once, for every text. It fails on the text that is the first section header alone: the
  second application puts two more line feeds before the header and one more separator
  line after it.
\<close>

theorem estruturar_texto_idempotent_counterexample:
  "estruturar_texto (estruturar_texto PRESTADOR) \<noteq> estruturar_texto PRESTADOR"
proof -
  have a: "estruturar_texto PRESTADOR = ''\<newline>\<newline>'' @ PRESTADOR @ separador" by code_simp
  have b: "estruturar_texto (''\<newline>\<newline>'' @ PRESTADOR @ separador)
             = ''\<newline>\<newline>\<newline>\<newline>'' @ PRESTADOR @ separador @ separador" by code_simp
  show ?thesis by (simp only: a b) (simp add: label_defs letter_defs)
qed

text \<open>
  C2 (amended): for every text in which none of the three section headers and none of
  the three key labels occurs, structuring twice gives the same as structuring once.
\<close>

theorem estruturar_texto_idempotent:
  assumes "\<forall>w\<in>set rotulos. \<not> str_contains w texto"
  shows "estruturar_texto (estruturar_texto texto) = estruturar_texto texto"
proof -
  have e: "estruturar_texto texto = money_rule (list_rule texto)"
    using assms by (rule estruturar_no_labels)
  have "\<forall>w\<in>set rotulos. \<not> str_contains w (money_rule (list_rule texto))"
    using assms by (intro no_labels_money_rule no_labels_list_rule)
  then have "estruturar_texto (money_rule (list_rule texto)) = money_rule (list_rule (money_rule (list_rule texto)))"
    by (rule estruturar_no_labels)
  also have "\<dots> = money_rule (list_rule texto)" by (simp add: list_rule_money_rule_list_rule money_rule_money_rule)
  finally show ?thesis by (simp add: e)
qed

text \<open>An instance of C2 (amended): a list marker and an amount, without header or label.\<close>

theorem estruturar_texto_idempotent_witness:
  "\<not> list_ex (\<lambda>w. str_contains w ''1.   Abc R$5'') rotulos \<and>
   estruturar_texto ''1.   Abc R$5'' = ''1. Abc R$ 5'' \<and>
   estruturar_texto (estruturar_texto ''1.   Abc R$5'') = estruturar_texto ''1.   Abc R$5''"
proof -
  have h: "\<forall>w\<in>set rotulos. \<not> str_contains w ''1.   Abc R$5''" by code_simp
  have v: "estruturar_texto ''1.   Abc R$5'' = ''1. Abc R$ 5''" by code_simp
  from estruturar_texto_idempotent[OF h] h v show ?thesis by (simp add: list_ex_iff)
qed

end
